theory Spec2Isabelle
  imports Main "HOL-Library.AList"
begin


section \<open>JavaScript values\<close>

text \<open>
  The values that flow through \<^verbatim>\<open>amp-access.js\<close>: the JSON trees of the configuration
  and of the authorization response, strings (URLs, the dialog's return payload),
  \<^verbatim>\<open>undefined\<close>, error objects (rejection reasons) and the built-in objects and
  functions of the engine, which the code meets when it reads a key of a plain object
  that the object inherits (\<open>Builtin\<close>, by name). Numbers are kept as integers: the
  only thing the code asks of a number is whether it is truthy, and every non-integer
  number is. A parsed tree holds no \<open>Undefined\<close>, \<open>Err\<close> or \<open>Builtin\<close>.
\<close>

datatype jsval =
    Undefined
  | Null
  | Bool bool
  | Num int
  | Str string
  | Arr "jsval list"
  | Obj "(string \<times> jsval) list"
  | Err string
  | Builtin string

text \<open>JavaScript's \<^verbatim>\<open>ToBoolean\<close>: what \<^verbatim>\<open>if (v)\<close>, \<^verbatim>\<open>!v\<close> and \<^verbatim>\<open>v || w\<close> test.\<close>

fun truthy :: "jsval \<Rightarrow> bool" where
  "truthy Undefined = False"
| "truthy Null = False"
| "truthy (Bool b) = b"
| "truthy (Num n) = (n \<noteq> 0)"
| "truthy (Str s) = (s \<noteq> [])"
| "truthy (Arr _) = True"
| "truthy (Obj _) = True"
| "truthy (Err _) = True"
| "truthy (Builtin _) = True"

text \<open>
  Property read \<^verbatim>\<open>v[k]\<close> of a parsed tree, for the keys the code reads of one (none of
  them is a property of a built-in prototype): the own property of an object,
  \<^verbatim>\<open>undefined\<close> elsewhere. \<open>Obj kvs\<close> lists the own properties in the order
  \<^verbatim>\<open>for ... in\<close> visits them; of two entries with one key the first is the property.
  Reading a property of \<^verbatim>\<open>null\<close> or \<^verbatim>\<open>undefined\<close> throws a TypeError, which the callers
  test for before they read.
\<close>

fun getProp :: "jsval \<Rightarrow> string \<Rightarrow> jsval" where
  "getProp (Obj kvs) k = (case map_of kvs k of Some v \<Rightarrow> v | None \<Rightarrow> Undefined)"
| "getProp _ k = Undefined"

section \<open>Plain objects\<close>

text \<open>
  The maps of the service (\<^verbatim>\<open>loginMap\<close>, \<^verbatim>\<open>loginUrlMap_\<close>) are objects made with \<^verbatim>\<open>{}\<close>
  and filled by assignment \<^verbatim>\<open>m[k] = v\<close>. Such an object has its own properties, in
  the order they were made, and a prototype: \<^verbatim>\<open>Object.prototype\<close> to begin with. The
  key \<^verbatim>\<open>__proto__\<close> is an accessor of \<^verbatim>\<open>Object.prototype\<close>: assigning to it makes no own
  property but replaces the prototype when the value is an object or \<^verbatim>\<open>null\<close>, and does
  nothing for any other value; reading it gives the prototype.
\<close>

datatype prototype = ObjectPrototype | NullPrototype | Prototype jsval

datatype jsobj = JsObj (own: "(string \<times> jsval) list") (proto: prototype)

definition emptyObject :: jsobj where
  "emptyObject = JsObj [] ObjectPrototype"

text \<open>The values whose language type is Object.\<close>

fun isObjectType :: "jsval \<Rightarrow> bool" where
  "isObjectType (Arr _) = True"
| "isObjectType (Obj _) = True"
| "isObjectType (Err _) = True"
| "isObjectType (Builtin _) = True"
| "isObjectType _ = False"

text \<open>What the \<^verbatim>\<open>__proto__\<close> setter does to the object it is called on.\<close>

definition setPrototype :: "jsval \<Rightarrow> jsobj \<Rightarrow> jsobj" where
  "setPrototype v ob =
     (if isObjectType v then JsObj (own ob) (Prototype v)
      else if v = Null then JsObj (own ob) NullPrototype
      else ob)"

text \<open>
  \<^verbatim>\<open>ob[k] = v\<close>. An own property is overwritten. A key that is not own becomes a new
  own property, except \<^verbatim>\<open>__proto__\<close> when the prototype chain still reaches the
  accessor: it does not when the prototype is \<^verbatim>\<open>null\<close>, or when the prototype is a
  parsed object with a property of that name of its own (\<^verbatim>\<open>JSON.parse\<close> makes one for
  the key).
\<close>

definition setMember :: "string \<Rightarrow> jsval \<Rightarrow> jsobj \<Rightarrow> jsobj" where
  "setMember k v ob =
     (if k \<noteq> ''__proto__'' \<or> map_of (own ob) k \<noteq> None
      then JsObj (AList.update k v (own ob)) (proto ob)
      else case proto ob of
             NullPrototype \<Rightarrow> JsObj (own ob @ [(k, v)]) NullPrototype
           | Prototype (Obj kvs) \<Rightarrow>
               if map_of kvs k \<noteq> None then JsObj (own ob @ [(k, v)]) (proto ob)
               else setPrototype v ob
           | _ \<Rightarrow> setPrototype v ob)"

text \<open>The index keys of an array: the decimal numerals of its positions.\<close>

fun decimal :: "nat \<Rightarrow> string" where
  "decimal n =
     (if n < 10 then [''0123456789'' ! n]
      else decimal (n div 10) @ [''0123456789'' ! (n mod 10)])"

declare decimal.simps [simp del]

definition arrayProps :: "jsval list \<Rightarrow> (string \<times> jsval) list" where
  "arrayProps xs = zip (map decimal [0..<length xs]) xs"

text \<open>
  The enumerable properties an object inherits: those of a prototype that came from
  a parsed tree. The properties of the built-in prototypes, of error objects and of
  built-ins are not enumerable.
\<close>

fun enumerableProps :: "prototype \<Rightarrow> (string \<times> jsval) list" where
  "enumerableProps (Prototype (Obj kvs)) = AList.clearjunk kvs"
| "enumerableProps (Prototype (Arr xs)) = arrayProps xs"
| "enumerableProps _ = []"

text \<open>
  \<^verbatim>\<open>for (const k in ob)\<close> with \<^verbatim>\<open>ob[k]\<close>: the own properties, then the inherited
  enumerable ones that no own property hides. \<^verbatim>\<open>Object.keys(ob)\<close> are the keys of
  \<open>own ob\<close> alone.
\<close>

definition forIn :: "jsobj \<Rightarrow> (string \<times> jsval) list" where
  "forIn ob = own ob @ filter (\<lambda>kv. map_of (own ob) (fst kv) = None) (enumerableProps (proto ob))"

text \<open>
  \<^verbatim>\<open>ob[k]\<close> for any key. What the built-in prototypes hold is the engine's, not the
  source's: \<open>host v k\<close> is the parameter that gives the value of key \<open>k\<close> read from the
  built-in object \<open>v\<close> (\<^verbatim>\<open>Object.prototype\<close>, \<^verbatim>\<open>Array.prototype\<close> with what that
  inherits) and from an error object or a built-in that was made the prototype.
\<close>

definition getMember :: "(jsval \<Rightarrow> string \<Rightarrow> jsval) \<Rightarrow> jsobj \<Rightarrow> string \<Rightarrow> jsval" where
  "getMember host ob k =
     (case map_of (own ob) k of
        Some v \<Rightarrow> v
      | None \<Rightarrow>
          (case proto ob of
             NullPrototype \<Rightarrow> Undefined
           | ObjectPrototype \<Rightarrow>
               if k = ''__proto__'' then Builtin ''Object.prototype''
               else host (Builtin ''Object.prototype'') k
           | Prototype (Obj kvs) \<Rightarrow>
               (case map_of kvs k of
                  Some v \<Rightarrow> v
                | None \<Rightarrow>
                    if k = ''__proto__'' then Obj kvs
                    else host (Builtin ''Object.prototype'') k)
           | Prototype (Arr xs) \<Rightarrow>
               (case map_of (arrayProps xs) k of
                  Some v \<Rightarrow> v
                | None \<Rightarrow>
                    if k = ''length'' then Num (int (length xs))
                    else if k = ''__proto__'' then Arr xs
                    else host (Builtin ''Array.prototype'') k)
           | Prototype p \<Rightarrow> host p k))"

section \<open>The access configuration\<close>

datatype AccessType = CLIENT | SERVER | OTHER

record AccessConfigDef =
  type :: AccessType
  authorization :: jsval
  pingback :: jsval
  loginMap :: jsobj
  authorizationFallbackResponse :: jsval

datatype error =
    UserError string
  | DevError string
  | TypeError

text \<open>
  Modelled from the spec: \<^verbatim>\<open>user.assertEnumValue\<close> of \<^verbatim>\<open>src/log\<close>, which is not among the
  sources. The spec: the resolver "validates type enum" and fails with a ConfigError
  when "an unknown type is given". The enum is \<^verbatim>\<open>AccessType\<close> of the source.
\<close>

definition assertEnumValue :: "jsval \<Rightarrow> error + AccessType" where
  "assertEnumValue v =
     (if v = Str ''client'' then Inr CLIENT
      else if v = Str ''server'' then Inr SERVER
      else if v = Str ''other'' then Inr OTHER
      else Inl (UserError ''Unknown access type''))"

text \<open>
  Modelled from the spec: \<^verbatim>\<open>isObject\<close> of \<^verbatim>\<open>src/types\<close>, not among the sources: the
  \<^verbatim>\<open>login\<close> field is "either a single URL string or a mapping of name to URL".
\<close>

fun isObject :: "jsval \<Rightarrow> bool" where
  "isObject (Obj _) = True"
| "isObject _ = False"

text \<open>
  \<^verbatim>\<open>buildConfigLoginMap_\<close> (a trailing underscore of a source name is dropped throughout: Isabelle refuses it). The \<^verbatim>\<open>for (const k in loginConfig)\<close> loop assigns
  \<^verbatim>\<open>loginMap[k] = loginConfig[k]\<close> entry by entry, to a map that starts as \<^verbatim>\<open>{}\<close>.
\<close>

fun buildConfigLoginMap :: "jsval \<Rightarrow> error + jsobj" where
  "buildConfigLoginMap loginConfig =
     (if \<not> truthy loginConfig then Inr emptyObject
      else case loginConfig of
        Str u \<Rightarrow> Inr (setMember '''' (Str u) emptyObject)
      | Obj kvs \<Rightarrow>
          Inr (foldl (\<lambda>m kv. setMember (fst kv) (snd kv) m) emptyObject (AList.clearjunk kvs))
      | _ \<Rightarrow> Inl (UserError ''login must be either a single URL or a map of URLs''))"

text \<open>
  The \<^verbatim>\<open>const type\<close> of \<^verbatim>\<open>buildConfig_\<close>: the \<^verbatim>\<open>type\<close> of the tree when it has a truthy
  one, and \<^verbatim>\<open>AccessType.CLIENT\<close> when it has not. Reading the key of \<^verbatim>\<open>null\<close> throws.
\<close>

definition accessType :: "jsval \<Rightarrow> error + AccessType" where
  "accessType configJson =
     (if configJson = Null \<or> configJson = Undefined then Inl TypeError
      else if truthy (getProp configJson ''type'')
      then assertEnumValue (getProp configJson ''type'')
      else Inr CLIENT)"

text \<open>
  \<^verbatim>\<open>buildConfig_\<close>. Its two inputs from outside the source file are parameters:
  \<^verbatim>\<open>parsed\<close> is the result of \<^verbatim>\<open>JSON.parse(this.accessElement_.textContent)\<close> (\<open>None\<close>
  when it throws), and \<^verbatim>\<open>isHttps\<close> says of a value whether \<^verbatim>\<open>assertHttpsUrl\<close> of
  \<^verbatim>\<open>src/url\<close> accepts it. The checks run in the source's order.
\<close>

definition buildConfig :: "(jsval \<Rightarrow> bool) \<Rightarrow> jsval option \<Rightarrow> error + AccessConfigDef" where
  "buildConfig isHttps parsed =
     (case parsed of
        None \<Rightarrow> Inl (UserError ''Failed to parse amp-access JSON'')
      | Some configJson \<Rightarrow>
          (case accessType configJson of
             Inl e \<Rightarrow> Inl e
           | Inr ty \<Rightarrow>
               (case buildConfigLoginMap (getProp configJson ''login'') of
                  Inl e \<Rightarrow> Inl e
                | Inr lm \<Rightarrow>
                    let config = \<lparr> type = ty,
                                   authorization = getProp configJson ''authorization'',
                                   pingback = getProp configJson ''pingback'',
                                   loginMap = lm,
                                   authorizationFallbackResponse =
                                     getProp configJson ''authorizationFallbackResponse'' \<rparr>
                    in
                      if truthy (authorization config) \<and> \<not> isHttps (authorization config)
                      then Inl (UserError ''source must start with https://'')
                      else if truthy (pingback config) \<and> \<not> isHttps (pingback config)
                      then Inl (UserError ''source must start with https://'')
                      else if list_ex (\<lambda>kv. \<not> isHttps (snd kv)) (forIn (loginMap config))
                      then Inl (UserError ''source must start with https://'')
                      else if ty = CLIENT \<or> ty = SERVER then
                        (if \<not> truthy (authorization config)
                         then Inl (UserError ''authorization URL must be specified'')
                         else if \<not> truthy (pingback config)
                         then Inl (UserError ''pingback URL must be specified'')
                         else if \<not> 0 < length (own (loginMap config))
                         then Inl (UserError ''At least one login URL must be specified'')
                         else Inr config)
                      else Inr config)))"

section \<open>Promises\<close>

text \<open>
  The service is written as chains of promises, so the model has a promise store. A
  promise is a number; the store gives each its state, the way it was made (which
  never changes) and, for a promise that was resolved with another promise, the promise
  it follows. \<^verbatim>\<open>subs\<close> are the reactions registered on pending promises, in
  registration order, and \<^verbatim>\<open>queue\<close> is the microtask queue.
\<close>

type_synonym pid = nat

datatype pstate = Pending | Fulfilled jsval | Rejected jsval

text \<open>
  The operations of the collaborators that return a promise. The environment settles
  them. \<^verbatim>\<open>X_Apply\<close> is \<^verbatim>\<open>applyAuthorization_\<close>: it, the template rendering and the
  attribute mutation below it are work on the document, and the model keeps only
  the promise it returns.
\<close>

datatype ext_req =
    X_ReaderId
  | X_Expand jsval jsval bool
  | X_FetchJson jsval
  | X_SendSignal jsval
  | X_LoginDialog jsval
  | X_Apply jsval

text \<open>
  The functions the source passes to \<^verbatim>\<open>then\<close> and \<^verbatim>\<open>catch\<close>, one constructor per
  function expression, with the variables it captures.
\<close>

datatype handler =
    H_authorizationReceived
  | H_expandUrl jsval bool
  | H_fetchAuthorization
  | H_authorizationFailed bool
  | H_authorizationResponse
  | H_authorizationError
  | H_resolve pid
  | H_reject pid
  | H_getAuthdataField string
  | H_waitLastAuthorization
  | H_reportView
  | H_viewCancelled
  | H_broadcastReauthorize
  | H_unlisten "nat list"
  | H_unlistenRethrow "nat list"
  | H_sendPingback
  | H_pingbackComplete
  | H_pingbackFailed
  | H_loginCompleted string
  | H_loginScheduleView
  | H_loginFailed string pid
  | H_setLoginUrl string

datatype origin =
    O_None
  | O_Executor
  | O_External ext_req
  | O_Resolved
  | O_Then pid "handler option" "handler option"
  | O_All "pid list"

datatype job = Notify pid nat

text \<open>What a handler does: return a value, throw, or return a promise.\<close>

datatype result = Return jsval | Throw jsval | ReturnP pid

section \<open>Listeners and timers\<close>

text \<open>
  The callbacks the source hands to the viewer, the viewport, the document and the
  timer, one constructor per function expression. A registration is a hook: its
  handle, what it listens to, and the callback.
\<close>

datatype callback =
    CB_applyAuthorization jsval pid
  | CB_scheduleViewReady int
  | CB_reportIfVisible int
  | CB_cancelIfHidden pid
  | CB_resolve pid
  | CB_timeout pid

datatype channel = OnReady | OnVisibility | OnScroll | OnClick | OnTimer int

section \<open>The service\<close>

text \<open>
  The fields of \<^verbatim>\<open>AccessService\<close> the flows read and write, the promise store, the
  environment (clock, visibility, document readiness, hooks) and what the service
  has emitted (analytics events, broadcasts, classes toggled on the root element).
  \<^verbatim>\<open>parseQueryString\<close> (of \<^verbatim>\<open>src/url\<close>) and \<^verbatim>\<open>getValueForExpr\<close> (of \<^verbatim>\<open>src/json\<close>) are
  not among the sources: they are parameters, carried in the state, as is what the
  engine's built-in objects hold (\<open>host\<close>). \<^verbatim>\<open>parseQueryString\<close> gives the map from
  the names of the query to their values, which are strings. The listener given to
  \<^verbatim>\<open>viewer.onBroadcast\<close> is never removed: \<open>broadcastListeners\<close> counts the
  registrations.
\<close>

record AccessService =
  enabled :: bool
  config :: AccessConfigDef
  pubOrigin :: string
  isProxyOrigin :: bool
  readerIdPromise :: "pid option"
  authResponse :: jsval
  firstAuthorizationPromise :: pid
  lastAuthorizationPromise :: pid
  reportViewPromise :: "pid option"
  loginUrlMap :: jsobj
  loginPromise :: "pid option"
  loginStartTime :: int
  pst :: "pid \<Rightarrow> pstate"
  org :: "pid \<Rightarrow> origin"
  adopted :: "pid \<Rightarrow> pid option"
  elems :: "pid \<Rightarrow> jsval option list"
  nextp :: nat
  subs :: "(pid \<times> job) list"
  queue :: "job list"
  now :: int
  visible :: bool
  docReady :: bool
  hooks :: "(nat \<times> channel \<times> callback) list"
  nextHook :: nat
  analytics :: "string list"
  broadcasts :: "(string \<times> string) list"
  broadcastListeners :: nat
  topClass :: "string \<Rightarrow> bool"
  parseQueryString :: "jsval \<Rightarrow> string \<Rightarrow> string option"
  getValueForExpr :: "jsval \<Rightarrow> string \<Rightarrow> jsval"
  host :: "jsval \<Rightarrow> string \<Rightarrow> jsval"

definition AUTHORIZATION_TIMEOUT :: int where
  "AUTHORIZATION_TIMEOUT = 3000"

definition VIEW_TIMEOUT :: int where
  "VIEW_TIMEOUT = 2000"

subsection \<open>Promise operations\<close>

definition newPromise :: "origin \<Rightarrow> pstate \<Rightarrow> AccessService \<Rightarrow> pid \<times> AccessService" where
  "newPromise og st s =
     (nextp s,
      s\<lparr> pst := (pst s)(nextp s := st), org := (org s)(nextp s := og),
         adopted := (adopted s)(nextp s := None), elems := (elems s)(nextp s := []),
         nextp := Suc (nextp s) \<rparr>)"

text \<open>
  Settling a pending promise moves its reactions to the microtask queue; settling a
  settled promise does nothing.
\<close>

definition settle :: "pid \<Rightarrow> pstate \<Rightarrow> AccessService \<Rightarrow> AccessService" where
  "settle p st s =
     (if pst s p = Pending
      then s\<lparr> pst := (pst s)(p := st),
              queue := queue s @ map snd (filter (\<lambda>r. fst r = p) (subs s)),
              subs := filter (\<lambda>r. fst r \<noteq> p) (subs s) \<rparr>
      else s)"

definition subscribe :: "pid \<Rightarrow> job \<Rightarrow> AccessService \<Rightarrow> AccessService" where
  "subscribe src j s =
     (if pst s src = Pending then s\<lparr> subs := subs s @ [(src, j)] \<rparr>
      else s\<lparr> queue := queue s @ [j] \<rparr>)"

text \<open>\<^verbatim>\<open>src.then(onF, onR)\<close>; \<^verbatim>\<open>src.catch(onR)\<close> is \<^verbatim>\<open>src.then(undefined, onR)\<close>.\<close>

definition promise_then ::
  "pid \<Rightarrow> handler option \<Rightarrow> handler option \<Rightarrow> AccessService \<Rightarrow> pid \<times> AccessService" where
  "promise_then src onF onR s =
     (let (d, s1) = newPromise (O_Then src onF onR) Pending s
      in (d, subscribe src (Notify d 0) s1))"

text \<open>\<^verbatim>\<open>Promise.resolve(v)\<close> for a value that is not a promise.\<close>

definition promise_resolve :: "jsval \<Rightarrow> AccessService \<Rightarrow> pid \<times> AccessService" where
  "promise_resolve v s = newPromise O_Resolved (Fulfilled v) s"

text \<open>
  \<^verbatim>\<open>Promise.all(inputs)\<close>: a reaction on each input; the result is fulfilled when
  every input has delivered its value and rejected with the first rejection that
  is delivered.
\<close>

definition promise_all :: "pid list \<Rightarrow> AccessService \<Rightarrow> pid \<times> AccessService" where
  "promise_all inputs s =
     (let (a, s1) = newPromise (O_All inputs) Pending s;
          s2 = s1\<lparr> elems := (elems s1)(a := replicate (length inputs) None) \<rparr>
      in (a, if inputs = [] then settle a (Fulfilled (Arr [])) s2
             else foldl (\<lambda>s' ip. subscribe (snd ip) (Notify a (fst ip)) s') s2
                    (enumerate 0 inputs)))"

text \<open>
  The \<^verbatim>\<open>resolve\<close> and \<^verbatim>\<open>reject\<close> functions of \<^verbatim>\<open>new Promise(executor)\<close>. Only a promise
  made by an executor has them.
\<close>

definition resolvePromise :: "pid \<Rightarrow> jsval \<Rightarrow> AccessService \<Rightarrow> AccessService" where
  "resolvePromise p v s = (if org s p = O_Executor then settle p (Fulfilled v) s else s)"

definition rejectPromise :: "pid \<Rightarrow> jsval \<Rightarrow> AccessService \<Rightarrow> AccessService" where
  "rejectPromise p e s = (if org s p = O_Executor then settle p (Rejected e) s else s)"

definition external :: "ext_req \<Rightarrow> AccessService \<Rightarrow> pid \<times> AccessService" where
  "external req s = newPromise (O_External req) Pending s"

subsection \<open>Hooks\<close>

definition addHook :: "channel \<Rightarrow> callback \<Rightarrow> AccessService \<Rightarrow> nat \<times> AccessService" where
  "addHook ch cb s =
     (nextHook s, s\<lparr> hooks := hooks s @ [(nextHook s, ch, cb)], nextHook := Suc (nextHook s) \<rparr>)"

definition removeHook :: "nat \<Rightarrow> AccessService \<Rightarrow> AccessService" where
  "removeHook i s = s\<lparr> hooks := filter (\<lambda>h. fst h \<noteq> i) (hooks s) \<rparr>"

subsection \<open>Methods of the service\<close>

text \<open>
  \<^verbatim>\<open>analyticsEvent_\<close> chains the trigger on the analytics promise; the model records
  the events in the order they are asked for. \<^verbatim>\<open>toggleTopClass_\<close> asks vsync for
  the mutation; the model records the class as toggled.
\<close>

definition analyticsEvent :: "string \<Rightarrow> AccessService \<Rightarrow> AccessService" where
  "analyticsEvent eventType s = s\<lparr> analytics := analytics s @ [eventType] \<rparr>"

definition toggleTopClass :: "string \<Rightarrow> bool \<Rightarrow> AccessService \<Rightarrow> AccessService" where
  "toggleTopClass className on s = s\<lparr> topClass := (topClass s)(className := on) \<rparr>"

definition broadcastReauthorize :: "AccessService \<Rightarrow> AccessService" where
  "broadcastReauthorize s =
     s\<lparr> broadcasts := broadcasts s @ [(''amp-access-reauthorize'', pubOrigin s)] \<rparr>"

definition getReaderId :: "AccessService \<Rightarrow> pid \<times> AccessService" where
  "getReaderId s =
     (case readerIdPromise s of
        Some p \<Rightarrow> (p, s)
      | None \<Rightarrow> (let (p, s1) = external X_ReaderId s in (p, s1\<lparr> readerIdPromise := Some p \<rparr>)))"

definition buildUrl :: "jsval \<Rightarrow> bool \<Rightarrow> AccessService \<Rightarrow> pid \<times> AccessService" where
  "buildUrl url useAuthData s =
     (let (r, s1) = getReaderId s
      in promise_then r (Some (H_expandUrl url useAuthData)) None s1)"

text \<open>\<^verbatim>\<open>firstAuthorizationResolver_\<close>: the \<^verbatim>\<open>resolve\<close> function the constructor keeps.\<close>

definition firstAuthorizationResolver :: "AccessService \<Rightarrow> AccessService" where
  "firstAuthorizationResolver s = resolvePromise (firstAuthorizationPromise s) Undefined s"

definition setAuthResponse :: "jsval \<Rightarrow> AccessService \<Rightarrow> AccessService" where
  "setAuthResponse response s = firstAuthorizationResolver (s\<lparr> authResponse := response \<rparr>)"

text \<open>
  \<^verbatim>\<open>buildLoginUrls_\<close>. The body of its \<^verbatim>\<open>for (const k in loginMap)\<close> loop takes the
  promises pushed so far and the service, and the entry \<open>(k, loginMap[k])\<close>.
  \<^verbatim>\<open>Object.keys(loginMap)\<close> counts the own properties; the loop visits the inherited
  enumerable ones too.
\<close>

definition buildLoginUrls_body ::
  "pid list \<times> AccessService \<Rightarrow> string \<times> jsval \<Rightarrow> pid list \<times> AccessService" where
  "buildLoginUrls_body acc ku =
     (let (u, sa) = buildUrl (snd ku) True (snd acc);
          (q, sb) = promise_then u (Some (H_setLoginUrl (fst ku))) None sa
      in (fst acc @ [q], sb))"

definition buildLoginUrls :: "AccessService \<Rightarrow> pid option \<times> AccessService" where
  "buildLoginUrls s =
     (if length (own (loginMap (config s))) = 0 then (None, s)
      else
        let (promises, s1) = foldl buildLoginUrls_body ([], s) (forIn (loginMap (config s)));
            (a, s2) = promise_all promises s1
        in (Some a, s2))"

text \<open>
  \<^verbatim>\<open>runAuthorization_\<close>. A failed \<^verbatim>\<open>dev.assert\<close> throws out of the method, after the
  loading class was toggled: the result is then \<open>Inl\<close>.
\<close>

definition runAuthorization :: "bool \<Rightarrow> AccessService \<Rightarrow> (error + pid) \<times> AccessService" where
  "runAuthorization opt_disableFallback s =
     (if type (config s) = OTHER
         \<and> (\<not> truthy (authorizationFallbackResponse (config s)) \<or> isProxyOrigin s)
      then
        let s1 = firstAuthorizationResolver s;
            (p, s2) = promise_resolve Undefined s1
        in (Inr p, s2)
      else
        let s1 = toggleTopClass ''amp-access-loading'' True s;
            (responsePromise, s4) =
              (if truthy (authorization (config s1)) then
                 let (urlPromise, s2) = buildUrl (authorization (config s1)) False s1;
                     (f, s3) = promise_then urlPromise (Some H_fetchAuthorization) None s2;
                     (r, s4) = promise_then f None
                                 (Some (H_authorizationFailed opt_disableFallback)) s3
                 in (Inr r, s4)
               else if type (config s1) \<noteq> OTHER then (Inl (DevError ''Assertion failed''), s1)
               else if isProxyOrigin s1 then (Inl (DevError ''Assertion failed''), s1)
               else if \<not> truthy (authorizationFallbackResponse (config s1))
               then (Inl (DevError ''Assertion failed''), s1)
               else
                 let (r, s2) = promise_resolve (authorizationFallbackResponse (config s1)) s1
                 in (Inr r, s2))
        in case responsePromise of
             Inl e \<Rightarrow> (Inl e, s4)
           | Inr rp \<Rightarrow>
               let (t, s5) = promise_then rp (Some H_authorizationResponse) None s4;
                   (promise, s6) = promise_then t None (Some H_authorizationError) s5;
                   (l, s7) = promise_all [firstAuthorizationPromise s6, promise] s6
               in (Inr promise, s7\<lparr> lastAuthorizationPromise := l \<rparr>))"

text \<open>
  The callback \<^verbatim>\<open>runAuthorization_\<close> gives to \<^verbatim>\<open>onDocumentReady\<close>:
  \<^verbatim>\<open>this.applyAuthorization_(response).then(resolve, reject)\<close>.
\<close>

definition cb_applyAuthorization :: "jsval \<Rightarrow> pid \<Rightarrow> AccessService \<Rightarrow> AccessService" where
  "cb_applyAuthorization response p s =
     (let (x, s1) = external (X_Apply response) s;
          (d, s2) = promise_then x (Some (H_resolve p)) (Some (H_reject p)) s1
      in s2)"

text \<open>
  Modelled from the spec: \<^verbatim>\<open>onDocumentReady\<close> of \<^verbatim>\<open>src/document-ready\<close>, not among the
  sources ("waiting for document-visible/ready signals"): the callback runs at once
  when the document is ready and on the ready signal otherwise. It is given as the
  hook to store and as the function to run.
\<close>

definition onDocumentReady ::
  "callback \<Rightarrow> (AccessService \<Rightarrow> AccessService) \<Rightarrow> AccessService \<Rightarrow> AccessService" where
  "onDocumentReady cb run_cb s = (if docReady s then run_cb s else snd (addHook OnReady cb s))"

text \<open>
  \<^verbatim>\<open>getAuthdataField\<close>: \<open>None\<close> is the \<^verbatim>\<open>null\<close> a disabled service returns in place
  of a promise.
\<close>

definition getAuthdataField :: "string \<Rightarrow> AccessService \<Rightarrow> pid option \<times> AccessService" where
  "getAuthdataField field s =
     (if \<not> enabled s then (None, s)
      else
        let (d, s1) = promise_then (lastAuthorizationPromise s)
                        (Some (H_getAuthdataField field)) None s
        in (Some d, s1))"

definition whenFirstAuthorized :: "AccessService \<Rightarrow> pid" where
  "whenFirstAuthorized s = firstAuthorizationPromise s"

text \<open>
  \<^verbatim>\<open>whenViewed_\<close>. Modelled from the spec: the viewer's and the viewport's
  observables, \<^verbatim>\<open>listenOnce\<close> and the timer are not among the sources; each
  registration is a hook, and the function it returns (or \<^verbatim>\<open>timer.cancel\<close> of its
  id) removes the hook. \<^verbatim>\<open>timer.delay(f, t)\<close> is a timer due \<open>t\<close> from now.
\<close>

definition whenViewed :: "int \<Rightarrow> AccessService \<Rightarrow> pid \<times> AccessService" where
  "whenViewed timeToView s =
     (if timeToView = 0 then promise_resolve Undefined s
      else
        let (p, s1) = newPromise O_Executor Pending s;
            (u1, s2) = addHook OnVisibility (CB_cancelIfHidden p) s1;
            (u2, s3) = addHook (OnTimer (now s2 + timeToView)) (CB_resolve p) s2;
            (u3, s4) = addHook OnScroll (CB_resolve p) s3;
            (u4, s5) = addHook OnClick (CB_resolve p) s4
        in promise_then p (Some (H_unlisten [u1, u2, u3, u4]))
             (Some (H_unlistenRethrow [u1, u2, u3, u4])) s5)"

definition cb_cancelIfHidden :: "pid \<Rightarrow> AccessService \<Rightarrow> AccessService" where
  "cb_cancelIfHidden p s = (if \<not> visible s then rejectPromise p (Err ''CANCELLED'') s else s)"

definition reportWhenViewed :: "int \<Rightarrow> AccessService \<Rightarrow> pid \<times> AccessService" where
  "reportWhenViewed timeToView s =
     (case reportViewPromise s of
        Some p \<Rightarrow> (p, s)
      | None \<Rightarrow>
          let (w, s1) = whenViewed timeToView s;
              (p2, s2) = promise_then w (Some H_waitLastAuthorization) None s1;
              (p3, s3) = promise_then p2 (Some H_reportView) None s2;
              (p4, s4) = promise_then p3 None (Some H_viewCancelled) s3;
              s5 = s4\<lparr> reportViewPromise := Some p4 \<rparr>;
              (p5, s6) = promise_then p4 (Some H_broadcastReauthorize) None s5
          in (p4, s6))"

definition cb_reportIfVisible :: "int \<Rightarrow> AccessService \<Rightarrow> AccessService" where
  "cb_reportIfVisible timeToView s =
     (if visible s then snd (reportWhenViewed timeToView s) else s)"

definition cb_scheduleViewReady :: "int \<Rightarrow> AccessService \<Rightarrow> AccessService" where
  "cb_scheduleViewReady timeToView s =
     (let s1 = (if visible s then snd (reportWhenViewed timeToView s) else s)
      in snd (addHook OnVisibility (CB_reportIfVisible timeToView) s1))"

definition scheduleView :: "int \<Rightarrow> AccessService \<Rightarrow> AccessService" where
  "scheduleView timeToView s =
     onDocumentReady (CB_scheduleViewReady timeToView) (cb_scheduleViewReady timeToView)
       (s\<lparr> reportViewPromise := None \<rparr>)"

definition reportViewToServer :: "AccessService \<Rightarrow> pid \<times> AccessService" where
  "reportViewToServer s =
     (if \<not> truthy (pingback (config s)) then promise_resolve Undefined s
      else
        let (u, s1) = buildUrl (pingback (config s)) True s;
            (x, s2) = promise_then u (Some H_sendPingback) None s1;
            (y, s3) = promise_then x (Some H_pingbackComplete) None s2
        in promise_then y None (Some H_pingbackFailed) s3)"

definition loginAnalyticsEvent :: "string \<Rightarrow> string \<Rightarrow> AccessService \<Rightarrow> AccessService" where
  "loginAnalyticsEvent ty ev s =
     (let s1 = analyticsEvent (''access-login-'' @ ev) s
      in if ty \<noteq> [] then analyticsEvent (''access-login-'' @ ty @ ''-'' @ ev) s1 else s1)"

text \<open>
  \<^verbatim>\<open>login\<close>. A failed \<^verbatim>\<open>user.assert\<close> throws out of the method (\<open>Inl\<close>). The two
  maps are read with \<^verbatim>\<open>m[type]\<close>, which finds inherited keys as well as own ones. The
  \<^verbatim>\<open>catch\<close> handler names the promise it belongs to (\<^verbatim>\<open>loginPromise\<close>), which is the
  next promise made.
\<close>

definition login :: "string \<Rightarrow> AccessService \<Rightarrow> (error + pid) \<times> AccessService" where
  "login ty s =
     (case (if now s - loginStartTime s < 1000 then loginPromise s else None) of
        Some p \<Rightarrow> (Inr p, s)
      | None \<Rightarrow>
          if \<not> truthy (getMember (host s) (loginMap (config s)) ty)
          then (Inl (UserError ''Login URL is not configured''), s)
          else if \<not> truthy (getMember (host s) (loginUrlMap s) ty)
          then (Inl (UserError ''Login URL is not ready''), s)
          else
            let loginUrl = getMember (host s) (loginUrlMap s) ty;
                s1 = loginAnalyticsEvent ty ''started'' s;
                (dialog, s2) = external (X_LoginDialog loginUrl) s1;
                (completed, s3) = promise_then dialog (Some (H_loginCompleted ty)) None s2;
                (lp, s4) = promise_then completed None (Some (H_loginFailed ty (nextp s3))) s3
            in (Inr lp, s4\<lparr> loginPromise := Some lp, loginStartTime := now s \<rparr>))"

definition handleAction :: "string \<Rightarrow> AccessService \<Rightarrow> AccessService" where
  "handleAction method s =
     (if method = ''login'' then snd (login [] s)
      else if take 6 method = ''login-'' then snd (login (drop 6 method) s)
      else s)"

definition listenToBroadcasts :: "AccessService \<Rightarrow> AccessService" where
  "listenToBroadcasts s = s\<lparr> broadcastListeners := Suc (broadcastListeners s) \<rparr>"

text \<open>
  The listener of \<^verbatim>\<open>listenToBroadcasts_\<close>. A message is given as the listener reads
  it: its \<^verbatim>\<open>type\<close> and its \<^verbatim>\<open>origin\<close>, each a string or missing (\<open>None\<close>). On strings
  the \<^verbatim>\<open>==\<close> of the source is equality, and a missing property equals no string.
  The conversions \<^verbatim>\<open>==\<close> makes of other kinds of values are not modelled: a message
  that holds one in either property is not an input of this model.
\<close>

definition cb_broadcast :: "string option \<Rightarrow> string option \<Rightarrow> AccessService \<Rightarrow> AccessService" where
  "cb_broadcast message_type message_origin s =
     (if message_type = Some ''amp-access-reauthorize'' \<and> message_origin = Some (pubOrigin s)
      then snd (runAuthorization False s) else s)"

text \<open>
  Modelled from the spec: \<^verbatim>\<open>timer.timeoutPromise\<close> of \<^verbatim>\<open>src/timer\<close>, not among the
  sources ("a bounded-duration (3000ms) network fetch. On timeout or transport
  failure ..."): a promise that settles as the raced promise does, unless the delay
  elapses first, which rejects it.
\<close>

definition timeoutPromise :: "int \<Rightarrow> pid \<Rightarrow> AccessService \<Rightarrow> pid \<times> AccessService" where
  "timeoutPromise delay racePromise s =
     (let (r, s1) = newPromise O_Executor Pending s;
          (h, s2) = addHook (OnTimer (now s1 + delay)) (CB_timeout r) s1;
          (d, s3) = promise_then racePromise (Some (H_resolve r)) (Some (H_reject r)) s2
      in (r, s3))"

definition cb_timeout :: "pid \<Rightarrow> AccessService \<Rightarrow> AccessService" where
  "cb_timeout r s = rejectPromise r (Str ''timeout'') s"

subsection \<open>The handlers\<close>

text \<open>
  What each function passed to \<^verbatim>\<open>then\<close> or \<^verbatim>\<open>catch\<close> does with its argument (the
  value or the reason of the promise it reacts to).
\<close>

fun call :: "handler \<Rightarrow> jsval \<Rightarrow> AccessService \<Rightarrow> result \<times> AccessService" where
  "call H_authorizationReceived v s =
     (Return Undefined, analyticsEvent ''access-authorization-received'' s)"
| "call (H_expandUrl url useAuthData) readerId s =
     (let (x, s1) = external (X_Expand url readerId useAuthData) s in (ReturnP x, s1))"
| "call H_fetchAuthorization url s =
     (let (x, s1) = external (X_FetchJson url) s;
          (r, s2) = timeoutPromise AUTHORIZATION_TIMEOUT x s1
      in (ReturnP r, s2))"
| "call (H_authorizationFailed opt_disableFallback) e s =
     (let s1 = analyticsEvent ''access-authorization-failed'' s
      in if truthy (authorizationFallbackResponse (config s1)) \<and> \<not> opt_disableFallback
         then (Return (authorizationFallbackResponse (config s1)), s1)
         else (Throw e, s1))"
| "call H_authorizationResponse response s =
     (let s1 = setAuthResponse response s;
          s2 = toggleTopClass ''amp-access-loading'' False s1;
          s3 = toggleTopClass ''amp-access-error'' False s2;
          (u, s4) = buildLoginUrls s3;
          (p, s5) = newPromise O_Executor Pending s4;
          s6 = onDocumentReady (CB_applyAuthorization response p)
                 (cb_applyAuthorization response p) s5
      in (ReturnP p, s6))"
| "call H_authorizationError e s =
     (let s1 = toggleTopClass ''amp-access-loading'' False s;
          s2 = toggleTopClass ''amp-access-error'' True s1
      in (Return Undefined, s2))"
| "call (H_resolve p) v s = (Return Undefined, resolvePromise p v s)"
| "call (H_reject p) e s = (Return Undefined, rejectPromise p e s)"
| "call (H_getAuthdataField field) v s =
     (if \<not> truthy (authResponse s) then (Return Null, s)
      else
        let x = getValueForExpr s (authResponse s) field
        in (Return (if truthy x then x else Null), s))"
| "call H_waitLastAuthorization v s = (ReturnP (lastAuthorizationPromise s), s)"
| "call H_reportView v s =
     (let s1 = analyticsEvent ''access-viewed'' s;
          (p, s2) = reportViewToServer s1
      in (ReturnP p, s2))"
| "call H_viewCancelled reason s = (Throw reason, s\<lparr> reportViewPromise := None \<rparr>)"
| "call H_broadcastReauthorize v s = (Return Undefined, broadcastReauthorize s)"
| "call (H_unlisten unlistenSet) v s =
     (Return Undefined, foldl (\<lambda>s' unlisten. removeHook unlisten s') s unlistenSet)"
| "call (H_unlistenRethrow unlistenSet) reason s =
     (Throw reason, foldl (\<lambda>s' unlisten. removeHook unlisten s') s unlistenSet)"
| "call H_sendPingback url s =
     (let (x, s1) = external (X_SendSignal url) s in (ReturnP x, s1))"
| "call H_pingbackComplete v s = (Return Undefined, analyticsEvent ''access-pingback-sent'' s)"
| "call H_pingbackFailed e s =
     (Throw (Err ''Pingback failed''), analyticsEvent ''access-pingback-failed'' s)"
| "call (H_loginCompleted ty) dialogResult s =
     (let s1 = s\<lparr> loginPromise := None \<rparr>;
          query = parseQueryString s1 dialogResult;
          sv = query ''success'';
          success = (sv = Some ''true'' \<or> sv = Some ''yes'' \<or> sv = Some ''1'');
          s2 = (if success then loginAnalyticsEvent ty ''success'' s1
                else loginAnalyticsEvent ty ''rejected'' s1)
      in if success \<or> (sv = None \<or> sv = Some [])
         then
           let s3 = broadcastReauthorize s2
           in case runAuthorization True s3 of
                (Inl e, s4) \<Rightarrow> (Throw (Err ''Assertion failed''), s4)
              | (Inr p, s4) \<Rightarrow>
                  (let (q, s5) = promise_then p (Some H_loginScheduleView) None s4
                   in (ReturnP q, s5))
         else (Return Undefined, s2))"
| "call H_loginScheduleView v s = (Return Undefined, scheduleView 0 s)"
| "call (H_loginFailed ty lp) reason s =
     (let s1 = loginAnalyticsEvent ty ''failed'' s;
          s2 = (if loginPromise s1 = Some lp then s1\<lparr> loginPromise := None \<rparr> else s1)
      in (Throw reason, s2))"
| "call (H_setLoginUrl k) url s =
     (Return (Obj [(''type'', Str k), (''url'', url)]),
      s\<lparr> loginUrlMap := setMember k url (loginUrlMap s) \<rparr>)"

text \<open>The callbacks, with the argument the caller passes.\<close>

fun invoke :: "callback \<Rightarrow> jsval \<Rightarrow> AccessService \<Rightarrow> AccessService" where
  "invoke (CB_applyAuthorization response p) v s = cb_applyAuthorization response p s"
| "invoke (CB_scheduleViewReady timeToView) v s = cb_scheduleViewReady timeToView s"
| "invoke (CB_reportIfVisible timeToView) v s = cb_reportIfVisible timeToView s"
| "invoke (CB_cancelIfHidden p) v s = cb_cancelIfHidden p s"
| "invoke (CB_resolve p) v s = resolvePromise p v s"
| "invoke (CB_timeout r) v s = cb_timeout r s"

subsection \<open>Microtasks\<close>

text \<open>
  What the promise \<open>d\<close> does with the outcome of its handler: a returned promise is
  followed (\<open>d\<close> settles as it does), a value fulfils, a throw rejects. A promise that
  is settled already ignores all three.
\<close>

definition finish :: "pid \<Rightarrow> result \<times> AccessService \<Rightarrow> AccessService" where
  "finish d rs =
     (case fst rs of
        Return v \<Rightarrow> settle d (Fulfilled v) (snd rs)
      | Throw e \<Rightarrow> settle d (Rejected e) (snd rs)
      | ReturnP q \<Rightarrow>
          if pst (snd rs) d = Pending
          then subscribe q (Notify d 0)
                 ((snd rs)\<lparr> adopted := (adopted (snd rs))(d := Some q) \<rparr>)
          else snd rs)"

text \<open>
  A reaction job. The job reads the state of the promise it reacts to: a settled
  promise keeps its state, so this is the value the job was queued with.
\<close>

definition run_job :: "job \<Rightarrow> AccessService \<Rightarrow> AccessService" where
  "run_job j s =
     (case j of Notify d i \<Rightarrow>
        (case org s d of
           O_Then src onF onR \<Rightarrow>
             (case adopted s d of
                Some q \<Rightarrow> (case pst s q of Pending \<Rightarrow> s | st \<Rightarrow> settle d st s)
              | None \<Rightarrow>
                  (case pst s src of
                     Pending \<Rightarrow> s
                   | Fulfilled v \<Rightarrow>
                       (case onF of
                          None \<Rightarrow> settle d (Fulfilled v) s
                        | Some h \<Rightarrow> finish d (call h v s))
                   | Rejected e \<Rightarrow>
                       (case onR of
                          None \<Rightarrow> settle d (Rejected e) s
                        | Some h \<Rightarrow> finish d (call h e s))))
         | O_All inputs \<Rightarrow>
             (if i < length inputs then
                (case pst s (inputs ! i) of
                   Pending \<Rightarrow> s
                 | Rejected e \<Rightarrow> settle d (Rejected e) s
                 | Fulfilled v \<Rightarrow>
                     (let es = (elems s d)[i := Some v];
                          s1 = s\<lparr> elems := (elems s)(d := es) \<rparr>
                      in if list_all (\<lambda>x. x \<noteq> None) es
                         then settle d (Fulfilled (Arr (map the es))) s1
                         else s1))
              else s)
         | _ \<Rightarrow> s))"

subsection \<open>Events\<close>

text \<open>
  What happens to the service from outside, one task at a time: a microtask runs
  (\<open>E_Tick\<close>), a collaborator's promise settles, time passes, a timer that is due
  fires, the document becomes ready, the viewer reports a visibility, the reader
  scrolls or taps, a broadcast arrives, the host page calls \<^verbatim>\<open>login\<close> or an action
  or \<^verbatim>\<open>getAuthdataField\<close>. A task starts only when the microtask queue is empty.
\<close>

datatype event =
    E_Tick
  | E_Settle pid pstate
  | E_Advance int
  | E_Timer nat
  | E_DocumentReady
  | E_Visibility bool
  | E_Scroll
  | E_Click
  | E_Broadcast "string option" "string option"
  | E_Login string
  | E_Action string
  | E_GetAuthdataField string

definition fire :: "channel \<Rightarrow> jsval \<Rightarrow> AccessService \<Rightarrow> AccessService" where
  "fire ch v s =
     foldl (\<lambda>s' h. invoke (snd (snd h)) v s') s (filter (\<lambda>h. fst (snd h) = ch) (hooks s))"

text \<open>A channel whose listeners hear one signal only (the ready signal, \<^verbatim>\<open>listenOnce\<close>).\<close>

definition fire_once :: "channel \<Rightarrow> jsval \<Rightarrow> AccessService \<Rightarrow> AccessService" where
  "fire_once ch v s =
     foldl (\<lambda>s' h. invoke (snd (snd h)) v s')
       (s\<lparr> hooks := filter (\<lambda>h. fst (snd h) \<noteq> ch) (hooks s) \<rparr>)
       (filter (\<lambda>h. fst (snd h) = ch) (hooks s))"

definition fire_timer :: "nat \<Rightarrow> AccessService \<Rightarrow> AccessService" where
  "fire_timer i s =
     (case find (\<lambda>h. fst h = i) (hooks s) of
        Some (_, OnTimer due, cb) \<Rightarrow>
          if due \<le> now s then invoke cb Undefined (removeHook i s) else s
      | _ \<Rightarrow> s)"

definition task :: "event \<Rightarrow> AccessService \<Rightarrow> AccessService" where
  "task e s =
     (case e of
        E_Tick \<Rightarrow> s
      | E_Settle p st \<Rightarrow>
          (case org s p of
             O_External _ \<Rightarrow> (if st = Pending then s else settle p st s)
           | _ \<Rightarrow> s)
      | E_Advance dt \<Rightarrow> (if 0 \<le> dt then s\<lparr> now := now s + dt \<rparr> else s)
      | E_Timer i \<Rightarrow> fire_timer i s
      | E_DocumentReady \<Rightarrow> fire_once OnReady Undefined (s\<lparr> docReady := True \<rparr>)
      | E_Visibility b \<Rightarrow> fire OnVisibility Undefined (s\<lparr> visible := b \<rparr>)
      | E_Scroll \<Rightarrow> fire OnScroll Undefined s
      | E_Click \<Rightarrow> fire_once OnClick Undefined s
      | E_Broadcast message_type message_origin \<Rightarrow>
          ((cb_broadcast message_type message_origin) ^^ broadcastListeners s) s
      | E_Login ty \<Rightarrow> snd (login ty s)
      | E_Action method \<Rightarrow> handleAction method s
      | E_GetAuthdataField field \<Rightarrow> snd (getAuthdataField field s))"

definition step :: "AccessService \<Rightarrow> event \<Rightarrow> AccessService" where
  "step s e =
     (case queue s of
        j # js \<Rightarrow> (if e = E_Tick then run_job j (s\<lparr> queue := js \<rparr>) else s)
      | [] \<Rightarrow> task e s)"

subsection \<open>Construction and start\<close>

text \<open>What the constructor reads from the window and the modules it imports.\<close>

record Window =
  win_accessElement :: "jsval option"
  win_isHttps :: "jsval \<Rightarrow> bool"
  win_sourceOrigin :: string
  win_isProxyOrigin :: bool
  win_now :: int
  win_visible :: bool
  win_docReady :: bool
  win_parseQueryString :: "jsval \<Rightarrow> string \<Rightarrow> string option"
  win_getValueForExpr :: "jsval \<Rightarrow> string \<Rightarrow> jsval"
  win_host :: "jsval \<Rightarrow> string \<Rightarrow> jsval"

text \<open>The constructor after \<^verbatim>\<open>buildConfig_\<close> has returned the configuration.\<close>

definition initService :: "AccessConfigDef \<Rightarrow> Window \<Rightarrow> AccessService" where
  "initService cfg win =
     (let s0 = \<lparr> enabled = True, config = cfg, pubOrigin = win_sourceOrigin win,
                 isProxyOrigin = win_isProxyOrigin win, readerIdPromise = None,
                 authResponse = Null, firstAuthorizationPromise = 0,
                 lastAuthorizationPromise = 0, reportViewPromise = None,
                 loginUrlMap = emptyObject,
                 loginPromise = None, loginStartTime = 0,
                 pst = (\<lambda>p. Pending), org = (\<lambda>p. O_None), adopted = (\<lambda>p. None),
                 elems = (\<lambda>p. []), nextp = 0, subs = [], queue = [],
                 now = win_now win, visible = win_visible win, docReady = win_docReady win,
                 hooks = [], nextHook = 0, analytics = [], broadcasts = [],
                 broadcastListeners = 0, topClass = (\<lambda>c. False),
                 parseQueryString = win_parseQueryString win,
                 getValueForExpr = win_getValueForExpr win, host = win_host win \<rparr>;
          (p, s1) = newPromise O_Executor Pending s0;
          s2 = s1\<lparr> firstAuthorizationPromise := p, lastAuthorizationPromise := p \<rparr>;
          (d, s3) = promise_then p (Some H_authorizationReceived) None s2
      in s3)"

definition constructor :: "Window \<Rightarrow> error + AccessService" where
  "constructor win =
     (case buildConfig (win_isHttps win) (win_accessElement win) of
        Inl e \<Rightarrow> Inl e
      | Inr cfg \<Rightarrow> Inr (initService cfg win))"

text \<open>
  \<^verbatim>\<open>startInternal_\<close>; an assertion that fails in \<^verbatim>\<open>runAuthorization_\<close> ends it
  there.
\<close>

definition startInternal :: "AccessService \<Rightarrow> AccessService" where
  "startInternal s =
     (let (u, s1) = buildLoginUrls s
      in case runAuthorization False s1 of
           (Inl e, s2) \<Rightarrow> s2
         | (Inr p, s2) \<Rightarrow> listenToBroadcasts (scheduleView VIEW_TIMEOUT s2))"

definition start :: "AccessService \<Rightarrow> AccessService" where
  "start s = (if \<not> enabled s then s else startInternal s)"

text \<open>The service of a configuration after the given events.\<close>

definition run :: "AccessConfigDef \<Rightarrow> Window \<Rightarrow> event list \<Rightarrow> AccessService" where
  "run cfg win evs = foldl step (start (initService cfg win)) evs"

text \<open>
  An instance of the \<^verbatim>\<open>isHttps\<close> parameter for the concrete examples below: the
  strings that start with \<^verbatim>\<open>https://\<close>.
\<close>

definition httpsUrl :: "jsval \<Rightarrow> bool" where
  "httpsUrl v = (case v of Str s \<Rightarrow> take 8 s = ''https://'' | _ \<Rightarrow> False)"

section \<open>Invariants, and the examples\<close>

definition handler_ok :: "pid \<Rightarrow> handler option \<Rightarrow> bool" where
  "handler_ok f h = (h \<noteq> Some (H_reject f))"

fun cb_ok :: "pid \<Rightarrow> callback \<Rightarrow> bool" where
  "cb_ok f (CB_applyAuthorization r p) = (p \<noteq> f)"
| "cb_ok f (CB_cancelIfHidden p) = (p \<noteq> f)"
| "cb_ok f (CB_timeout p) = (p \<noteq> f)"
| "cb_ok f cb = True"

definition cell_ok :: "AccessService \<Rightarrow> pid \<Rightarrow> bool" where
  "cell_ok s d =
     (case org s d of
        O_None \<Rightarrow> pst s d = Pending \<and> adopted s d = None \<and> elems s d = []
      | O_Executor \<Rightarrow> (d = firstAuthorizationPromise s \<longrightarrow> (\<forall>e. pst s d \<noteq> Rejected e))
      | O_External req \<Rightarrow> True
      | O_Resolved \<Rightarrow> True
      | O_Then src onF onR \<Rightarrow>
          handler_ok (firstAuthorizationPromise s) onF
        \<and> handler_ok (firstAuthorizationPromise s) onR
        \<and> (onF = None \<and> onR = Some H_authorizationError
             \<longrightarrow> adopted s d = None \<and> (\<forall>e. pst s d \<noteq> Rejected e))
        \<and> (onR = None \<longrightarrow> adopted s d \<noteq> None \<or> (\<exists>v. pst s d = Fulfilled v)
             \<longrightarrow> (\<exists>v. pst s src = Fulfilled v))
        \<and> (onF = Some H_waitLastAuthorization \<and> onR = None
             \<longrightarrow> (\<forall>v. pst s d = Fulfilled v
                   \<longrightarrow> (\<exists>l. adopted s d = Some l \<and> pst s l = Fulfilled v)))
        \<and> (onF = Some H_reportView \<and> onR = None
             \<longrightarrow> (\<exists>p1. org s src = O_Then p1 (Some H_waitLastAuthorization) None))
      | O_All inputs \<Rightarrow>
          length (elems s d) = length inputs
        \<and> (\<forall>i<length inputs. \<forall>v. elems s d ! i = Some v \<longrightarrow> pst s (inputs ! i) = Fulfilled v)
        \<and> (\<forall>v. pst s d = Fulfilled v \<longrightarrow> (\<forall>i<length inputs. elems s d ! i \<noteq> None))
        \<and> (\<forall>e. pst s d = Rejected e \<longrightarrow> (\<exists>p\<in>set inputs. pst s p = Rejected e)))"

definition service_inv :: "AccessService \<Rightarrow> bool" where
  "service_inv s =
     ((\<forall>d. cell_ok s d)
    \<and> (\<forall>d. nextp s \<le> d \<longrightarrow> org s d = O_None)
    \<and> firstAuthorizationPromise s < nextp s
    \<and> org s (firstAuthorizationPromise s) = O_Executor
    \<and> (\<forall>x\<in>set (hooks s). cb_ok (firstAuthorizationPromise s) (snd (snd x)))
    \<and> (lastAuthorizationPromise s = firstAuthorizationPromise s
        \<or> (\<exists>d src. org s (lastAuthorizationPromise s) = O_All [firstAuthorizationPromise s, d]
               \<and> org s d = O_Then src None (Some H_authorizationError))))"

definition new_ok :: "AccessService \<Rightarrow> origin \<Rightarrow> pstate \<Rightarrow> bool" where
  "new_ok s og st =
     (case og of
        O_None \<Rightarrow> False
      | O_Executor \<Rightarrow> st = Pending
      | O_External req \<Rightarrow> True
      | O_Resolved \<Rightarrow> True
      | O_Then src onF onR \<Rightarrow>
          st = Pending
        \<and> handler_ok (firstAuthorizationPromise s) onF
        \<and> handler_ok (firstAuthorizationPromise s) onR
        \<and> (onF = Some H_reportView \<and> onR = None
             \<longrightarrow> (\<exists>p1. org s src = O_Then p1 (Some H_waitLastAuthorization) None))
      | O_All inputs \<Rightarrow> False)"

definition hv :: "AccessService \<Rightarrow> _" where
  "hv s = (pst s, org s, adopted s, elems s, nextp s, firstAuthorizationPromise s,
           lastAuthorizationPromise s, hooks s)"

definition frame :: "AccessService \<Rightarrow> AccessService \<Rightarrow> bool" where
  "frame s s' =
     (firstAuthorizationPromise s' = firstAuthorizationPromise s
    \<and> nextp s \<le> nextp s'
    \<and> (\<forall>p<nextp s. org s' p = org s p \<and> adopted s' p = adopted s p \<and> elems s' p = elems s p
           \<and> (pst s' p = pst s p \<or> (pst s p = Pending \<and> org s p = O_Executor))))"

named_theorems inv_rules

named_theorems frame_rules

text \<open>The state \<^verbatim>\<open>Promise.all\<close> leaves, up to the reactions it registers.\<close>

definition all_cell :: "pid list \<Rightarrow> AccessService \<Rightarrow> AccessService" where
  "all_cell inputs s =
     (let s1 = snd (newPromise (O_All inputs) Pending s)
      in s1\<lparr> elems := (elems s1)(nextp s := replicate (length inputs) None) \<rparr>)"

definition evolves :: "AccessService \<Rightarrow> AccessService \<Rightarrow> bool" where
  "evolves s s' =
     (firstAuthorizationPromise s' = firstAuthorizationPromise s
    \<and> nextp s \<le> nextp s'
    \<and> (\<forall>p<nextp s. org s' p = org s p \<and> (pst s p \<noteq> Pending \<longrightarrow> pst s' p = pst s p)))"

definition reached :: "AccessService \<Rightarrow> AccessService" where
  "reached s = s"

definition cfg0 :: AccessConfigDef where
  "cfg0 = \<lparr> type = CLIENT, authorization = Str ''https://pub.example/a'',
            pingback = Str ''https://pub.example/p'',
            loginMap = JsObj [(''a'', Str ''https://pub.example/l'')] ObjectPrototype,
            authorizationFallbackResponse = Undefined \<rparr>"

definition query0 :: "jsval \<Rightarrow> string \<Rightarrow> string option" where
  "query0 v =
     (if v = Str ''success=yes'' then [''success'' \<mapsto> ''yes'']
      else if v = Str ''success=no'' then [''success'' \<mapsto> ''no'']
      else Map.empty)"

definition win0 :: Window where
  "win0 = \<lparr> win_accessElement = None, win_isHttps = httpsUrl,
            win_sourceOrigin = ''https://pub.example'', win_isProxyOrigin = False,
            win_now = 0, win_visible = True, win_docReady = True,
            win_parseQueryString = query0, win_getValueForExpr = getProp,
            win_host = (\<lambda>v k. Undefined) \<rparr>"

definition ticks :: "event list" where
  "ticks = [E_Tick, E_Tick, E_Tick]"

definition authorized :: "event list" where
  "authorized = [E_Settle 2 (Fulfilled (Str ''reader''))] @ ticks
           @ [E_Settle 19 (Fulfilled (Str ''https://pub.example/a?rid=reader''))] @ ticks
           @ [E_Settle 20 (Fulfilled (Obj [(''access'', Bool True)]))] @ ticks @ ticks"

definition applied :: "event list" where
  "applied = ticks @ [E_Settle 27 (Fulfilled Undefined)] @ ticks @ ticks"

definition reauthorized :: "event list" where
  "reauthorized = [E_Broadcast (Some ''amp-access-reauthorize'') (Some ''https://pub.example'')]
           @ ticks
           @ [E_Settle 36 (Fulfilled (Str ''https://pub.example/a?rid=reader''))] @ ticks
           @ [E_Settle 37 (Fulfilled (Obj [(''access'', Bool False)]))] @ ticks @ ticks"

section \<open>Configuration: mandatory fields and secure URLs\<close>

lemma update_fresh: "map_of ps k = None \<Longrightarrow> AList.update k v ps = ps @ [(k, v)]"
  by (induction ps) auto

lemma setMember_plain:
  "k \<noteq> ''__proto__'' \<Longrightarrow> map_of (own ob) k = None
   \<Longrightarrow> setMember k v ob = JsObj (own ob @ [(k, v)]) (proto ob)"
  by (simp add: setMember_def update_fresh)

lemma setMember_accessor:
  "proto ob = ObjectPrototype \<Longrightarrow> map_of (own ob) ''__proto__'' = None
   \<Longrightarrow> own (setMember ''__proto__'' v ob) = own ob"
  by (simp add: setMember_def setPrototype_def)

lemma loginMap_loop_own:
  "distinct (map fst xs) \<Longrightarrow> (\<forall>kv \<in> set xs. map_of (own ob) (fst kv) = None)
   \<Longrightarrow> map_of (own ob) ''__proto__'' = None
   \<Longrightarrow> proto ob = ObjectPrototype \<or> ''__proto__'' \<notin> fst ` set xs
   \<Longrightarrow> own (foldl (\<lambda>m kv. setMember (fst kv) (snd kv) m) ob xs)
       = own ob @ filter (\<lambda>kv. fst kv \<noteq> ''__proto__'') xs"
proof (induction xs arbitrary: ob)
  case Nil
  then show ?case by simp
next
  case (Cons x xs)
  obtain k v where x: "x = (k, v)" by (cases x)
  show ?case
  proof (cases "k = ''__proto__''")
    case True
    with Cons.prems x have po: "proto ob = ObjectPrototype" by auto
    let ?ob = "setMember k v ob"
    have own: "own ?ob = own ob"
      using True po Cons.prems(3) by (simp add: setMember_accessor)
    have notin: "''__proto__'' \<notin> fst ` set xs"
      using Cons.prems(1) True x by auto
    have "own (foldl (\<lambda>m kv. setMember (fst kv) (snd kv) m) ?ob xs)
          = own ?ob @ filter (\<lambda>kv. fst kv \<noteq> ''__proto__'') xs"
      using Cons.prems notin own by (intro Cons.IH) auto
    with own True x show ?thesis by simp
  next
    case False
    let ?ob = "setMember k v ob"
    have fresh: "map_of (own ob) k = None" using Cons.prems(2) x by simp
    have eq: "?ob = JsObj (own ob @ [(k, v)]) (proto ob)"
      using False fresh by (rule setMember_plain)
    have "own (foldl (\<lambda>m kv. setMember (fst kv) (snd kv) m) ?ob xs)
          = own ?ob @ filter (\<lambda>kv. fst kv \<noteq> ''__proto__'') xs"
    proof (intro Cons.IH)
      show "distinct (map fst xs)" using Cons.prems(1) by simp
      show "\<forall>kv\<in>set xs. map_of (own ?ob) (fst kv) = None"
        using Cons.prems(1,2) x by (auto simp: eq map_add_def split: option.splits)
      show "map_of (own ?ob) ''__proto__'' = None"
        using Cons.prems(3) False by (simp add: eq map_add_def)
      show "proto ?ob = ObjectPrototype \<or> ''__proto__'' \<notin> fst ` set xs"
        using Cons.prems(4) by (auto simp: eq)
    qed
    with eq False x show ?thesis by simp
  qed
qed

lemma buildConfigLoginMap_own:
  assumes "buildConfigLoginMap (Obj kvs) = Inr lm"
  shows "own lm = filter (\<lambda>kv. fst kv \<noteq> ''__proto__'') (AList.clearjunk kvs)"
proof -
  have "own (foldl (\<lambda>m kv. setMember (fst kv) (snd kv) m) emptyObject (AList.clearjunk kvs))
        = own emptyObject @ filter (\<lambda>kv. fst kv \<noteq> ''__proto__'') (AList.clearjunk kvs)"
    by (rule loginMap_loop_own) (simp_all add: emptyObject_def distinct_clearjunk)
  with assms show ?thesis by (simp add: emptyObject_def)
qed

lemma buildConfigLoginMap_empty_iff:
  "(\<exists>lm. buildConfigLoginMap lc = Inr lm \<and> own lm = [])
   \<longleftrightarrow> (\<not> truthy lc \<or> (\<exists>kvs. lc = Obj kvs \<and> (\<forall>kv \<in> set kvs. fst kv = ''__proto__'')))"
proof (cases "truthy lc")
  case False
  then show ?thesis by (simp add: emptyObject_def)
next
  case True
  show ?thesis
  proof (cases lc)
    case (Obj kvs)
    obtain lm where lm: "buildConfigLoginMap (Obj kvs) = Inr lm" by simp
    have "own lm = [] \<longleftrightarrow> (\<forall>kv \<in> set (AList.clearjunk kvs). fst kv = ''__proto__'')"
      by (simp add: buildConfigLoginMap_own [OF lm] filter_empty_conv)
    also have "\<dots> \<longleftrightarrow> (\<forall>k \<in> fst ` set (AList.clearjunk kvs). k = ''__proto__'')" by auto
    also have "\<dots> \<longleftrightarrow> (\<forall>k \<in> fst ` set kvs. k = ''__proto__'')"
      by (simp only: dom_clearjunk)
    also have "\<dots> \<longleftrightarrow> (\<forall>kv \<in> set kvs. fst kv = ''__proto__'')" by auto
    finally show ?thesis using lm Obj True by (simp del: buildConfigLoginMap.simps)
  next
    case (Str u)
    with True show ?thesis by (simp add: emptyObject_def setMember_def)
  qed (use True in simp_all)
qed

lemma buildConfigLoginMap_entries:
  assumes "buildConfigLoginMap (Obj kvs) = Inr lm" "map_of kvs k = Some v" "k \<noteq> ''__proto__''"
  shows "(k, v) \<in> set (forIn lm)"
proof -
  have "map_of (AList.clearjunk kvs) k = Some v" using assms(2) by (simp add: map_of_clearjunk)
  then have "(k, v) \<in> set (AList.clearjunk kvs)" by (rule map_of_SomeD)
  then have "(k, v) \<in> set (own lm)"
    using assms(3) by (simp add: buildConfigLoginMap_own [OF assms(1)])
  then show ?thesis by (simp add: forIn_def)
qed

lemma buildConfigLoginMap_error:
  "buildConfigLoginMap lc = Inl e \<Longrightarrow> \<exists>m. e = UserError m"
  by (auto split: if_splits jsval.splits)

lemma accessType_error:
  "accessType tree = Inl e \<Longrightarrow> tree \<noteq> Null \<Longrightarrow> tree \<noteq> Undefined \<Longrightarrow> \<exists>m. e = UserError m"
  by (auto simp: accessType_def assertEnumValue_def split: if_splits)

lemma buildConfig_unfold:
  assumes "accessType tree = Inr ty" "buildConfigLoginMap (getProp tree ''login'') = Inr lm"
  shows "buildConfig isHttps (Some tree) =
     (if truthy (getProp tree ''authorization'') \<and> \<not> isHttps (getProp tree ''authorization'')
      then Inl (UserError ''source must start with https://'')
      else if truthy (getProp tree ''pingback'') \<and> \<not> isHttps (getProp tree ''pingback'')
      then Inl (UserError ''source must start with https://'')
      else if \<exists>kv \<in> set (forIn lm). \<not> isHttps (snd kv)
      then Inl (UserError ''source must start with https://'')
      else if (ty = CLIENT \<or> ty = SERVER) \<and> \<not> truthy (getProp tree ''authorization'')
      then Inl (UserError ''authorization URL must be specified'')
      else if (ty = CLIENT \<or> ty = SERVER) \<and> \<not> truthy (getProp tree ''pingback'')
      then Inl (UserError ''pingback URL must be specified'')
      else if (ty = CLIENT \<or> ty = SERVER) \<and> own lm = []
      then Inl (UserError ''At least one login URL must be specified'')
      else Inr \<lparr> type = ty, authorization = getProp tree ''authorization'',
                 pingback = getProp tree ''pingback'', loginMap = lm,
                 authorizationFallbackResponse = getProp tree ''authorizationFallbackResponse'' \<rparr>)"
  using assms unfolding buildConfig_def
  by (simp add: Let_def list_ex_iff del: buildConfigLoginMap.simps)

lemma buildConfig_fails_early:
  assumes "accessType tree = Inl e \<or> buildConfigLoginMap (getProp tree ''login'') = Inl e"
  shows "\<exists>e'. buildConfig isHttps (Some tree) = Inl e'"
  using assms unfolding buildConfig_def
  by (auto split: sum.splits simp del: buildConfigLoginMap.simps)

lemma buildConfig_error:
  assumes "buildConfig isHttps (Some tree) = Inl e" "tree \<noteq> Null" "tree \<noteq> Undefined"
  shows "\<exists>m. e = UserError m"
proof (cases "accessType tree")
  case (Inl a)
  with assms(1) have "e = a" by (simp add: buildConfig_def)
  with accessType_error [OF Inl assms(2,3)] show ?thesis by simp
next
  case ty: (Inr ty)
  show ?thesis
  proof (cases "buildConfigLoginMap (getProp tree ''login'')")
    case (Inl a)
    with assms(1) ty have "e = a" by (simp add: buildConfig_def del: buildConfigLoginMap.simps)
    with buildConfigLoginMap_error [OF Inl] show ?thesis by simp
  next
    case (Inr lm)
    from assms(1) show ?thesis
      unfolding buildConfig_unfold [OF ty Inr] by (auto split: if_splits)
  qed
qed



lemma cell_ok_mono:
  assumes ok: "cell_ok s d"
    and own: "pst s' d = pst s d" "org s' d = org s d" "adopted s' d = adopted s d"
        "elems s' d = elems s d"
        "firstAuthorizationPromise s' = firstAuthorizationPromise s"
    and stable: "\<And>x. pst s x \<noteq> Pending \<Longrightarrow> pst s' x = pst s x"
    and orgs: "\<And>x. org s x \<noteq> O_None \<Longrightarrow> org s' x = org s x"
  shows "cell_ok s' d"
proof (cases "org s d")
  case (O_Then src onF onR)
  have ful: "\<And>x v. pst s x = Fulfilled v \<Longrightarrow> pst s' x = Fulfilled v"
    using stable by force
  have og: "\<And>p1. org s src = O_Then p1 (Some H_waitLastAuthorization) None
              \<Longrightarrow> org s' src = O_Then p1 (Some H_waitLastAuthorization) None"
    using orgs by force
  from ok O_Then show ?thesis
    unfolding cell_ok_def using own ful og by (auto simp: O_Then)
next
  case (O_All inputs)
  have ful: "\<And>x v. pst s x = Fulfilled v \<Longrightarrow> pst s' x = Fulfilled v"
    using stable by force
  have rej: "\<And>x v. pst s x = Rejected v \<Longrightarrow> pst s' x = Rejected v"
    using stable by force
  from ok O_All show ?thesis
    unfolding cell_ok_def using own ful rej by (auto simp: O_All) blast+
next
  case O_Executor
  with ok own show ?thesis unfolding cell_ok_def by (simp add: O_Executor) metis
qed (use ok own in \<open>auto simp: cell_ok_def\<close>)

lemma inv_unallocated:
  assumes "service_inv s" "nextp s \<le> d"
  shows "org s d = O_None" "pst s d = Pending" "adopted s d = None" "elems s d = []"
proof -
  from assms show o: "org s d = O_None" by (simp add: service_inv_def)
  from assms have "cell_ok s d" by (simp add: service_inv_def)
  with o show "pst s d = Pending" "adopted s d = None" "elems s d = []"
    by (simp_all add: cell_ok_def)
qed

lemma inv_allocated:
  assumes "service_inv s" "org s d \<noteq> O_None"
  shows "d < nextp s"
  using assms by (force simp: service_inv_def not_le [symmetric])

lemma inv_settled_allocated:
  assumes "service_inv s" "pst s d \<noteq> Pending"
  shows "d < nextp s"
  using inv_unallocated(2) [OF assms(1), of d] assms(2) by force

lemma inv_newPromise:
  assumes inv: "service_inv s" and ok: "new_ok s og st"
  shows "service_inv (snd (newPromise og st s))"
proof -
  let ?s' = "snd (newPromise og st s)"
  let ?n = "nextp s"
  have fresh: "org s ?n = O_None" "pst s ?n = Pending" "adopted s ?n = None" "elems s ?n = []"
    using inv_unallocated [OF inv, of ?n] by simp_all
  have first_lt: "firstAuthorizationPromise s < ?n" using inv by (simp add: service_inv_def)
  have cells: "cell_ok ?s' d" for d
  proof (cases "d = ?n")
    case True
    with ok fresh show ?thesis
      by (auto simp: cell_ok_def new_ok_def newPromise_def split: origin.splits)
  next
    case False
    have "cell_ok s d" using inv by (simp add: service_inv_def)
    then show ?thesis
      by (rule cell_ok_mono) (use False fresh in \<open>auto simp: newPromise_def\<close>)
  qed
  have last: "lastAuthorizationPromise ?s' = firstAuthorizationPromise ?s'
        \<or> (\<exists>d src. org ?s' (lastAuthorizationPromise ?s') = O_All [firstAuthorizationPromise ?s', d]
               \<and> org ?s' d = O_Then src None (Some H_authorizationError))"
    using inv fresh unfolding service_inv_def
    by (auto simp: newPromise_def)
  show ?thesis
    unfolding service_inv_def
    using cells last inv first_lt fresh
    by (auto simp: service_inv_def newPromise_def)
qed

lemma cell_ok_cong:
  assumes "hv s' = hv s"
  shows "cell_ok s' d = cell_ok s d"
proof
  assume "cell_ok s' d"
  then show "cell_ok s d" by (rule cell_ok_mono) (use assms in \<open>simp_all add: hv_def\<close>)
next
  assume "cell_ok s d"
  then show "cell_ok s' d" by (rule cell_ok_mono) (use assms in \<open>simp_all add: hv_def\<close>)
qed

lemma inv_cong:
  assumes "hv s' = hv s"
  shows "service_inv s' = service_inv s"
  unfolding service_inv_def cell_ok_cong [OF assms]
  using assms by (simp add: hv_def)

lemma frame_cong_left: "hv s' = hv s \<Longrightarrow> frame s' t = frame s t"
  by (simp add: hv_def frame_def)

lemma frame_cong_right: "hv s' = hv s \<Longrightarrow> frame t s' = frame t s"
  by (simp add: hv_def frame_def)

lemma frame_refl [simp]: "frame s s"
  by (simp add: frame_def)

lemma frame_trans:
  assumes a: "frame s s1" and b: "frame s1 s2"
  shows "frame s s2"
  unfolding frame_def
proof (intro conjI allI impI)
  show "firstAuthorizationPromise s2 = firstAuthorizationPromise s"
    using a b by (simp add: frame_def)
  show "nextp s \<le> nextp s2" using a b by (simp add: frame_def)
next
  fix p assume p: "p < nextp s"
  then have p1: "p < nextp s1" using a by (simp add: frame_def)
  from a p have A: "org s1 p = org s p" "adopted s1 p = adopted s p" "elems s1 p = elems s p"
    "pst s1 p = pst s p \<or> (pst s p = Pending \<and> org s p = O_Executor)"
    by (simp_all add: frame_def)
  from b p1 have B: "org s2 p = org s1 p" "adopted s2 p = adopted s1 p"
    "elems s2 p = elems s1 p"
    "pst s2 p = pst s1 p \<or> (pst s1 p = Pending \<and> org s1 p = O_Executor)"
    by (simp_all add: frame_def)
  show "org s2 p = org s p" using A B by simp
  show "adopted s2 p = adopted s p" using A B by simp
  show "elems s2 p = elems s p" using A B by simp
  show "pst s2 p = pst s p \<or> (pst s p = Pending \<and> org s p = O_Executor)"
    using A B by auto
qed

lemma hv_subscribe [simp]: "hv (subscribe src j s) = hv s"
  by (simp add: hv_def subscribe_def)

lemma hv_settle_other:
  "hv (settle p st s) = (if pst s p = Pending
      then (case hv s of (ps, r) \<Rightarrow> (ps(p := st), r)) else hv s)"
  by (simp add: hv_def settle_def)

lemma inv_subscribe [simp]: "service_inv (subscribe src j s) = service_inv s"
  by (rule inv_cong) simp

lemma frame_subscribe [simp]: "frame s (subscribe src j t) = frame s t"
  by (rule frame_cong_right) simp

lemma frame_newPromise: "frame s (snd (newPromise og st s))"
  by (simp add: frame_def newPromise_def)

lemma frame_settle_executor:
  "org s p = O_Executor \<Longrightarrow> frame s (settle p st s)"
  by (simp add: frame_def settle_def)

text \<open>Settling: every other cell is unaffected; the settled cell is the caller's.\<close>

lemma inv_settle:
  assumes inv: "service_inv s"
    and own: "pst s p = Pending \<Longrightarrow> cell_ok (settle p st s) p"
  shows "service_inv (settle p st s)"
proof (cases "pst s p = Pending")
  case False
  then have "hv (settle p st s) = hv s" by (simp add: hv_settle_other)
  from inv_cong [OF this] inv show ?thesis by simp
next
  case True
  let ?s' = "settle p st s"
  have cells: "cell_ok ?s' d" for d
  proof (cases "d = p")
    case True
    with own \<open>pst s p = Pending\<close> show ?thesis by simp
  next
    case False
    have "cell_ok s d" using inv by (simp add: service_inv_def)
    then show ?thesis
      by (rule cell_ok_mono) (use False True in \<open>auto simp: settle_def\<close>)
  qed
  show ?thesis
    unfolding service_inv_def
    using cells inv True
    by (auto simp: service_inv_def settle_def)
qed

lemma inv_resolvePromise:
  assumes "service_inv s"
  shows "service_inv (resolvePromise p v s)"
proof (cases "org s p = O_Executor")
  case True
  have "service_inv (settle p (Fulfilled v) s)"
    using assms by (rule inv_settle) (simp add: cell_ok_def settle_def True)
  with True show ?thesis by (simp add: resolvePromise_def)
next
  case False
  with assms show ?thesis by (simp add: resolvePromise_def)
qed

lemma inv_rejectPromise:
  assumes "service_inv s" "p \<noteq> firstAuthorizationPromise s"
  shows "service_inv (rejectPromise p e s)"
proof (cases "org s p = O_Executor")
  case True
  have "service_inv (settle p (Rejected e) s)"
    using assms(1) by (rule inv_settle) (simp add: cell_ok_def settle_def True assms(2))
  with True show ?thesis by (simp add: rejectPromise_def)
next
  case False
  with assms show ?thesis by (simp add: rejectPromise_def)
qed

lemma frame_resolvePromise: "frame s (resolvePromise p v s)"
  by (simp add: resolvePromise_def frame_settle_executor)

lemma frame_rejectPromise: "frame s (rejectPromise p e s)"
  by (simp add: rejectPromise_def frame_settle_executor)

lemma frame_first: "frame s s' \<Longrightarrow> firstAuthorizationPromise s' = firstAuthorizationPromise s"
  by (simp add: frame_def)

lemma frame_nextp: "frame s s' \<Longrightarrow> nextp s \<le> nextp s'"
  by (simp add: frame_def)

lemma frame_step: "frame s t \<Longrightarrow> frame t u \<Longrightarrow> frame s u"
  by (rule frame_trans)

lemma new_ok_simps [simp]:
  "new_ok s O_Executor st = (st = Pending)"
  "new_ok s (O_External req) st"
  "new_ok s O_Resolved st"
  "new_ok s (O_Then src onF onR) st =
     (st = Pending \<and> handler_ok (firstAuthorizationPromise s) onF
      \<and> handler_ok (firstAuthorizationPromise s) onR
      \<and> (onF = Some H_reportView \<and> onR = None
           \<longrightarrow> (\<exists>p1. org s src = O_Then p1 (Some H_waitLastAuthorization) None)))"
  by (simp_all add: new_ok_def)

lemma handler_ok_simps [simp]:
  "handler_ok f None"
  "handler_ok f (Some h) = (h \<noteq> H_reject f)"
  by (simp_all add: handler_ok_def)

lemma fst_newPromise [simp]: "fst (newPromise og st s) = nextp s"
  by (simp add: newPromise_def)

lemma frame_newPromise' [frame_rules]:
  "frame s t \<Longrightarrow> frame s (snd (newPromise og st t))"
  by (erule frame_step) (rule frame_newPromise)

lemmas inv_newPromise' [inv_rules] = inv_newPromise

subsection \<open>then, resolve, all, external\<close>

lemma fst_promise_then [simp]: "fst (promise_then src onF onR s) = nextp s"
  by (simp add: promise_then_def split_def)

lemma snd_promise_then:
  "snd (promise_then src onF onR s)
   = subscribe src (Notify (nextp s) 0) (snd (newPromise (O_Then src onF onR) Pending s))"
  by (simp add: promise_then_def split_def)

lemma inv_promise_then [inv_rules]:
  "service_inv s \<Longrightarrow> new_ok s (O_Then src onF onR) Pending
   \<Longrightarrow> service_inv (snd (promise_then src onF onR s))"
  by (simp add: snd_promise_then inv_newPromise)

lemma frame_promise_then [frame_rules]:
  "frame s t \<Longrightarrow> frame s (snd (promise_then src onF onR t))"
  by (simp add: snd_promise_then frame_rules)

lemma fst_promise_resolve [simp]: "fst (promise_resolve v s) = nextp s"
  by (simp add: promise_resolve_def)

lemma inv_promise_resolve [inv_rules]:
  "service_inv s \<Longrightarrow> service_inv (snd (promise_resolve v s))"
  by (simp add: promise_resolve_def inv_newPromise)

lemma frame_promise_resolve [frame_rules]:
  "frame s t \<Longrightarrow> frame s (snd (promise_resolve v t))"
  by (simp add: promise_resolve_def frame_rules)

lemma fst_external [simp]: "fst (external req s) = nextp s"
  by (simp add: external_def)

lemma inv_external [inv_rules]:
  "service_inv s \<Longrightarrow> service_inv (snd (external req s))"
  by (simp add: external_def inv_newPromise)

lemma frame_external [frame_rules]:
  "frame s t \<Longrightarrow> frame s (snd (external req t))"
  by (simp add: external_def frame_rules)

lemma hv_foldl_subscribe:
  "hv (foldl (\<lambda>s' ip. subscribe (snd ip) (Notify a (fst ip)) s') s xs) = hv s"
  by (induction xs arbitrary: s) simp_all

lemma fst_promise_all [simp]: "fst (promise_all inputs s) = nextp s"
  by (simp add: promise_all_def split_def Let_def)

lemma hv_promise_all:
  "hv (snd (promise_all inputs s))
   = (if inputs = [] then hv (settle (nextp s) (Fulfilled (Arr [])) (all_cell inputs s))
      else hv (all_cell inputs s))"
  by (simp add: promise_all_def split_def Let_def all_cell_def hv_foldl_subscribe)

lemma inv_all_cell:
  assumes inv: "service_inv s"
  shows "service_inv (all_cell inputs s)"
proof -
  let ?s' = "all_cell inputs s"
  let ?n = "nextp s"
  have fresh: "org s ?n = O_None" "pst s ?n = Pending" "adopted s ?n = None" "elems s ?n = []"
    using inv_unallocated [OF inv, of ?n] by simp_all
  have first_lt: "firstAuthorizationPromise s < ?n" using inv by (simp add: service_inv_def)
  have cells: "cell_ok ?s' d" for d
  proof (cases "d = ?n")
    case True
    with fresh show ?thesis
      by (auto simp: cell_ok_def all_cell_def newPromise_def)
  next
    case False
    have "cell_ok s d" using inv by (simp add: service_inv_def)
    then show ?thesis
      by (rule cell_ok_mono) (use False fresh in \<open>auto simp: all_cell_def newPromise_def\<close>)
  qed
  have last: "lastAuthorizationPromise ?s' = firstAuthorizationPromise ?s'
        \<or> (\<exists>d src. org ?s' (lastAuthorizationPromise ?s') = O_All [firstAuthorizationPromise ?s', d]
               \<and> org ?s' d = O_Then src None (Some H_authorizationError))"
  proof -
    from inv consider "lastAuthorizationPromise s = firstAuthorizationPromise s"
      | d src where "org s (lastAuthorizationPromise s) = O_All [firstAuthorizationPromise s, d]"
          "org s d = O_Then src None (Some H_authorizationError)"
      unfolding service_inv_def by blast
    then show ?thesis
    proof cases
      case 1
      then show ?thesis by (simp add: all_cell_def newPromise_def)
    next
      case 2
      with fresh have "lastAuthorizationPromise s \<noteq> ?n" "d \<noteq> ?n" by auto
      with 2 show ?thesis by (auto simp: all_cell_def newPromise_def)
    qed
  qed
  show ?thesis
    unfolding service_inv_def
    using cells last inv first_lt fresh
    by (auto simp: service_inv_def all_cell_def newPromise_def)
qed

lemma inv_promise_all [inv_rules]:
  assumes inv: "service_inv s"
  shows "service_inv (snd (promise_all inputs s))"
proof -
  have a: "service_inv (all_cell inputs s)" using inv by (rule inv_all_cell)
  have b: "service_inv (settle (nextp s) (Fulfilled (Arr [])) (all_cell inputs s))"
    if "inputs = []"
    using a by (rule inv_settle) (simp add: that cell_ok_def settle_def all_cell_def newPromise_def)
  have "service_inv (if inputs = [] then settle (nextp s) (Fulfilled (Arr [])) (all_cell inputs s)
                     else all_cell inputs s)"
    using a b by simp
  moreover have "hv (snd (promise_all inputs s))
     = hv (if inputs = [] then settle (nextp s) (Fulfilled (Arr [])) (all_cell inputs s)
           else all_cell inputs s)"
    by (simp add: hv_promise_all)
  ultimately show ?thesis using inv_cong by blast
qed

lemma frame_all_cell: "frame s (all_cell inputs s)"
  by (simp add: frame_def all_cell_def newPromise_def)

lemma frame_promise_all [frame_rules]:
  assumes "frame s t"
  shows "frame s (snd (promise_all inputs t))"
proof -
  have "frame t (if inputs = [] then settle (nextp t) (Fulfilled (Arr [])) (all_cell inputs t)
                 else all_cell inputs t)"
    by (simp add: frame_all_cell) (simp add: frame_def settle_def all_cell_def newPromise_def)
  moreover have "hv (snd (promise_all inputs t))
     = hv (if inputs = [] then settle (nextp t) (Fulfilled (Arr [])) (all_cell inputs t)
           else all_cell inputs t)"
    by (simp add: hv_promise_all)
  ultimately have "frame t (snd (promise_all inputs t))"
    using frame_cong_right by blast
  with assms show ?thesis by (rule frame_step)
qed

subsection \<open>Fields outside the promise store\<close>

lemma hv_update [simp]:
  "hv (s\<lparr> enabled := x0 \<rparr>) = hv s"
  "hv (s\<lparr> config := x1 \<rparr>) = hv s"
  "hv (s\<lparr> pubOrigin := x2 \<rparr>) = hv s"
  "hv (s\<lparr> isProxyOrigin := x3 \<rparr>) = hv s"
  "hv (s\<lparr> readerIdPromise := x4 \<rparr>) = hv s"
  "hv (s\<lparr> authResponse := x5 \<rparr>) = hv s"
  "hv (s\<lparr> reportViewPromise := x6 \<rparr>) = hv s"
  "hv (s\<lparr> loginUrlMap := x7 \<rparr>) = hv s"
  "hv (s\<lparr> loginPromise := x8 \<rparr>) = hv s"
  "hv (s\<lparr> loginStartTime := x9 \<rparr>) = hv s"
  "hv (s\<lparr> subs := x10 \<rparr>) = hv s"
  "hv (s\<lparr> queue := x11 \<rparr>) = hv s"
  "hv (s\<lparr> now := x12 \<rparr>) = hv s"
  "hv (s\<lparr> visible := x13 \<rparr>) = hv s"
  "hv (s\<lparr> docReady := x14 \<rparr>) = hv s"
  "hv (s\<lparr> nextHook := x15 \<rparr>) = hv s"
  "hv (s\<lparr> analytics := x16 \<rparr>) = hv s"
  "hv (s\<lparr> broadcasts := x17 \<rparr>) = hv s"
  "hv (s\<lparr> topClass := x18 \<rparr>) = hv s"
  "hv (s\<lparr> parseQueryString := x19 \<rparr>) = hv s"
  "hv (s\<lparr> getValueForExpr := x20 \<rparr>) = hv s"
  "hv (s\<lparr> broadcastListeners := x21 \<rparr>) = hv s"
  "hv (s\<lparr> host := x22 \<rparr>) = hv s"
  by (simp_all add: hv_def)

lemma inv_update [simp]:
  "service_inv (s\<lparr> enabled := x0 \<rparr>) = service_inv s"
  "service_inv (s\<lparr> config := x1 \<rparr>) = service_inv s"
  "service_inv (s\<lparr> pubOrigin := x2 \<rparr>) = service_inv s"
  "service_inv (s\<lparr> isProxyOrigin := x3 \<rparr>) = service_inv s"
  "service_inv (s\<lparr> readerIdPromise := x4 \<rparr>) = service_inv s"
  "service_inv (s\<lparr> authResponse := x5 \<rparr>) = service_inv s"
  "service_inv (s\<lparr> reportViewPromise := x6 \<rparr>) = service_inv s"
  "service_inv (s\<lparr> loginUrlMap := x7 \<rparr>) = service_inv s"
  "service_inv (s\<lparr> loginPromise := x8 \<rparr>) = service_inv s"
  "service_inv (s\<lparr> loginStartTime := x9 \<rparr>) = service_inv s"
  "service_inv (s\<lparr> subs := x10 \<rparr>) = service_inv s"
  "service_inv (s\<lparr> queue := x11 \<rparr>) = service_inv s"
  "service_inv (s\<lparr> now := x12 \<rparr>) = service_inv s"
  "service_inv (s\<lparr> visible := x13 \<rparr>) = service_inv s"
  "service_inv (s\<lparr> docReady := x14 \<rparr>) = service_inv s"
  "service_inv (s\<lparr> nextHook := x15 \<rparr>) = service_inv s"
  "service_inv (s\<lparr> analytics := x16 \<rparr>) = service_inv s"
  "service_inv (s\<lparr> broadcasts := x17 \<rparr>) = service_inv s"
  "service_inv (s\<lparr> topClass := x18 \<rparr>) = service_inv s"
  "service_inv (s\<lparr> parseQueryString := x19 \<rparr>) = service_inv s"
  "service_inv (s\<lparr> getValueForExpr := x20 \<rparr>) = service_inv s"
  "service_inv (s\<lparr> broadcastListeners := x21 \<rparr>) = service_inv s"
  "service_inv (s\<lparr> host := x22 \<rparr>) = service_inv s"
  by (rule inv_cong, simp)+

lemma frame_update [simp]:
  "frame t (s\<lparr> enabled := x0 \<rparr>) = frame t s"
  "frame t (s\<lparr> config := x1 \<rparr>) = frame t s"
  "frame t (s\<lparr> pubOrigin := x2 \<rparr>) = frame t s"
  "frame t (s\<lparr> isProxyOrigin := x3 \<rparr>) = frame t s"
  "frame t (s\<lparr> readerIdPromise := x4 \<rparr>) = frame t s"
  "frame t (s\<lparr> authResponse := x5 \<rparr>) = frame t s"
  "frame t (s\<lparr> reportViewPromise := x6 \<rparr>) = frame t s"
  "frame t (s\<lparr> loginUrlMap := x7 \<rparr>) = frame t s"
  "frame t (s\<lparr> loginPromise := x8 \<rparr>) = frame t s"
  "frame t (s\<lparr> loginStartTime := x9 \<rparr>) = frame t s"
  "frame t (s\<lparr> subs := x10 \<rparr>) = frame t s"
  "frame t (s\<lparr> queue := x11 \<rparr>) = frame t s"
  "frame t (s\<lparr> now := x12 \<rparr>) = frame t s"
  "frame t (s\<lparr> visible := x13 \<rparr>) = frame t s"
  "frame t (s\<lparr> docReady := x14 \<rparr>) = frame t s"
  "frame t (s\<lparr> nextHook := x15 \<rparr>) = frame t s"
  "frame t (s\<lparr> analytics := x16 \<rparr>) = frame t s"
  "frame t (s\<lparr> broadcasts := x17 \<rparr>) = frame t s"
  "frame t (s\<lparr> topClass := x18 \<rparr>) = frame t s"
  "frame t (s\<lparr> parseQueryString := x19 \<rparr>) = frame t s"
  "frame t (s\<lparr> getValueForExpr := x20 \<rparr>) = frame t s"
  "frame t (s\<lparr> broadcastListeners := x21 \<rparr>) = frame t s"
  "frame t (s\<lparr> host := x22 \<rparr>) = frame t s"
  by (rule frame_cong_right, simp)+

lemma hv_simple [simp]:
  "hv (analyticsEvent ev s) = hv s"
  "hv (toggleTopClass c b s) = hv s"
  "hv (broadcastReauthorize s) = hv s"
  "hv (loginAnalyticsEvent ty ev s) = hv s"
  by (simp_all add: analyticsEvent_def toggleTopClass_def broadcastReauthorize_def
        loginAnalyticsEvent_def Let_def)

lemma inv_simple [simp]:
  "service_inv (analyticsEvent ev s) = service_inv s"
  "service_inv (toggleTopClass c b s) = service_inv s"
  "service_inv (broadcastReauthorize s) = service_inv s"
  "service_inv (loginAnalyticsEvent ty ev s) = service_inv s"
  by (rule inv_cong, simp)+

lemma frame_simple [simp]:
  "frame t (analyticsEvent ev s) = frame t s"
  "frame t (toggleTopClass c b s) = frame t s"
  "frame t (broadcastReauthorize s) = frame t s"
  "frame t (loginAnalyticsEvent ty ev s) = frame t s"
  by (rule frame_cong_right, simp)+

lemma fst_addHook [simp]: "fst (addHook ch cb s) = nextHook s"
  by (simp add: addHook_def)

lemma inv_addHook [inv_rules]:
  "service_inv s \<Longrightarrow> cb_ok (firstAuthorizationPromise s) cb
   \<Longrightarrow> service_inv (snd (addHook ch cb s))"
  unfolding service_inv_def
  by (auto simp: addHook_def intro: cell_ok_mono)

lemma frame_addHook [simp]: "frame t (snd (addHook ch cb s)) = frame t s"
  by (simp add: frame_def addHook_def)

lemma inv_removeHook [inv_rules]:
  "service_inv s \<Longrightarrow> service_inv (removeHook i s)"
  unfolding service_inv_def
  by (auto simp: removeHook_def intro: cell_ok_mono)

lemma frame_removeHook [simp]: "frame t (removeHook i s) = frame t s"
  by (simp add: frame_def removeHook_def)

lemma inv_first_lt: "service_inv s \<Longrightarrow> firstAuthorizationPromise s < nextp s"
  by (simp add: service_inv_def)

lemma frame_resolvePromise' [frame_rules]:
  "frame s t \<Longrightarrow> frame s (resolvePromise p v t)"
  by (erule frame_step) (rule frame_resolvePromise)

lemma frame_rejectPromise' [frame_rules]:
  "frame s t \<Longrightarrow> frame s (rejectPromise p e t)"
  by (erule frame_step) (rule frame_rejectPromise)

lemmas [inv_rules] = inv_resolvePromise inv_rejectPromise

subsection \<open>The methods keep the invariant\<close>

lemma frame_getReaderId [frame_rules]: "frame s t \<Longrightarrow> frame s (snd (getReaderId t))"
  by (simp add: getReaderId_def split_def frame_rules split: option.split)

lemma inv_getReaderId [inv_rules]: "service_inv s \<Longrightarrow> service_inv (snd (getReaderId s))"
  by (simp add: getReaderId_def split_def inv_rules split: option.split)

lemma first_prims [simp]:
  "firstAuthorizationPromise (snd (newPromise og st s)) = firstAuthorizationPromise s"
  "firstAuthorizationPromise (subscribe src j s) = firstAuthorizationPromise s"
  "firstAuthorizationPromise (settle p st s) = firstAuthorizationPromise s"
  "firstAuthorizationPromise (resolvePromise p v s) = firstAuthorizationPromise s"
  "firstAuthorizationPromise (rejectPromise p v s) = firstAuthorizationPromise s"
  "firstAuthorizationPromise (snd (promise_then src onF onR s)) = firstAuthorizationPromise s"
  "firstAuthorizationPromise (snd (promise_resolve v s)) = firstAuthorizationPromise s"
  "firstAuthorizationPromise (snd (external req s)) = firstAuthorizationPromise s"
  "firstAuthorizationPromise (snd (promise_all inputs s)) = firstAuthorizationPromise s"
  "firstAuthorizationPromise (snd (addHook ch cb s)) = firstAuthorizationPromise s"
  "firstAuthorizationPromise (removeHook i s) = firstAuthorizationPromise s"
  "firstAuthorizationPromise (analyticsEvent ev s) = firstAuthorizationPromise s"
  "firstAuthorizationPromise (toggleTopClass c b s) = firstAuthorizationPromise s"
  "firstAuthorizationPromise (broadcastReauthorize s) = firstAuthorizationPromise s"
  "firstAuthorizationPromise (loginAnalyticsEvent ty ev s) = firstAuthorizationPromise s"
  "firstAuthorizationPromise (snd (getReaderId s)) = firstAuthorizationPromise s"
                 apply (simp_all add: newPromise_def subscribe_def settle_def resolvePromise_def
      rejectPromise_def addHook_def removeHook_def analyticsEvent_def toggleTopClass_def
      broadcastReauthorize_def loginAnalyticsEvent_def Let_def)
  using frame_first [OF frame_promise_then [OF frame_refl]] apply blast
  using frame_first [OF frame_promise_resolve [OF frame_refl]] apply blast
  using frame_first [OF frame_external [OF frame_refl]] apply blast
  using frame_first [OF frame_promise_all [OF frame_refl]] apply blast
  using frame_first [OF frame_getReaderId [OF frame_refl]] apply blast
  done

lemma frame_buildUrl [frame_rules]: "frame s t \<Longrightarrow> frame s (snd (buildUrl url b t))"
  by (simp add: buildUrl_def split_def Let_def frame_rules)

lemma inv_buildUrl [inv_rules]: "service_inv s \<Longrightarrow> service_inv (snd (buildUrl url b s))"
  by (simp add: buildUrl_def split_def Let_def inv_rules)

lemma first_buildUrl [simp]:
  "firstAuthorizationPromise (snd (buildUrl url b s)) = firstAuthorizationPromise s"
  using frame_first [OF frame_buildUrl [OF frame_refl]] by blast

lemma frame_firstAuthorizationResolver [frame_rules]:
  "frame s t \<Longrightarrow> frame s (firstAuthorizationResolver t)"
  by (simp add: firstAuthorizationResolver_def frame_rules)

lemma inv_firstAuthorizationResolver [inv_rules]:
  "service_inv s \<Longrightarrow> service_inv (firstAuthorizationResolver s)"
  by (simp add: firstAuthorizationResolver_def inv_rules)

lemma frame_setAuthResponse [frame_rules]:
  "frame s t \<Longrightarrow> frame s (setAuthResponse r t)"
  by (simp add: setAuthResponse_def frame_rules)

lemma inv_setAuthResponse [inv_rules]:
  "service_inv s \<Longrightarrow> service_inv (setAuthResponse r s)"
  by (simp add: setAuthResponse_def inv_rules)

lemma first_resolver [simp]:
  "firstAuthorizationPromise (firstAuthorizationResolver s) = firstAuthorizationPromise s"
  "firstAuthorizationPromise (setAuthResponse r s) = firstAuthorizationPromise s"
  by (simp_all add: firstAuthorizationResolver_def setAuthResponse_def)

text \<open>The loop of \<^verbatim>\<open>buildLoginUrls_\<close>.\<close>

lemma frame_buildLoginUrls_loop:
  "frame s (snd acc) \<Longrightarrow>
   frame s (snd (foldl buildLoginUrls_body acc xs))"
  by (induction xs arbitrary: acc) (simp_all add: buildLoginUrls_body_def split_def Let_def frame_rules)

lemma inv_buildLoginUrls_loop:
  "service_inv (snd acc) \<Longrightarrow>
   service_inv (snd (foldl buildLoginUrls_body acc xs))"
  by (induction xs arbitrary: acc) (simp_all add: buildLoginUrls_body_def split_def Let_def inv_rules)

lemma frame_buildLoginUrls [frame_rules]:
  "frame s t \<Longrightarrow> frame s (snd (buildLoginUrls t))"
  by (simp add: buildLoginUrls_def split_def Let_def frame_rules frame_buildLoginUrls_loop)

lemma inv_buildLoginUrls [inv_rules]:
  "service_inv s \<Longrightarrow> service_inv (snd (buildLoginUrls s))"
  by (simp add: buildLoginUrls_def split_def Let_def inv_rules inv_buildLoginUrls_loop)

lemma first_buildLoginUrls [simp]:
  "firstAuthorizationPromise (snd (buildLoginUrls s)) = firstAuthorizationPromise s"
  using frame_first [OF frame_buildLoginUrls [OF frame_refl]] by blast

lemma org_nextp_basic [simp]:
  "org (subscribe src j s) = org s"
  "org (settle p st s) = org s"
  "nextp (subscribe src j s) = nextp s"
  "nextp (settle p st s) = nextp s"
  by (simp_all add: subscribe_def settle_def)

lemma org_prims [simp]:
  "org (snd (promise_then src onF onR s)) = (org s)(nextp s := O_Then src onF onR)"
  "org (snd (promise_resolve v s)) = (org s)(nextp s := O_Resolved)"
  "org (snd (external req s)) = (org s)(nextp s := O_External req)"
  by (simp_all add: snd_promise_then newPromise_def promise_resolve_def external_def)

lemma nextp_prims [simp]:
  "nextp (snd (promise_then src onF onR s)) = Suc (nextp s)"
  "nextp (snd (promise_resolve v s)) = Suc (nextp s)"
  "nextp (snd (external req s)) = Suc (nextp s)"
  by (simp_all add: snd_promise_then newPromise_def promise_resolve_def external_def)

lemma org_nextp_promise_all [simp]:
  "org (snd (promise_all inputs s)) = (org s)(nextp s := O_All inputs)"
  "nextp (snd (promise_all inputs s)) = Suc (nextp s)"
  using hv_promise_all [of inputs s]
  by (simp_all add: hv_def all_cell_def newPromise_def split: if_splits)

lemma frame_set_last [simp]:
  "frame t (s\<lparr> lastAuthorizationPromise := l \<rparr>) = frame t s"
  by (simp add: frame_def)

lemma inv_set_last:
  assumes "service_inv s"
    and "org s l = O_All [firstAuthorizationPromise s, d]"
    and "org s d = O_Then src None (Some H_authorizationError)"
  shows "service_inv (s\<lparr> lastAuthorizationPromise := l \<rparr>)"
proof -
  have "cell_ok (s\<lparr> lastAuthorizationPromise := l \<rparr>) x" for x
    using assms(1) by (auto simp: service_inv_def intro: cell_ok_mono)
  then show ?thesis
    using assms unfolding service_inv_def by auto
qed

lemma inv_runAuthorization_tail:
  assumes "service_inv s4"
  shows "service_inv
     (let (t, s5) = promise_then rp (Some H_authorizationResponse) None s4;
          (promise, s6) = promise_then t None (Some H_authorizationError) s5;
          (l, s7) = promise_all [firstAuthorizationPromise s6, promise] s6
      in s7\<lparr> lastAuthorizationPromise := l \<rparr>)"
  unfolding Let_def split_def
  by (rule inv_set_last [where d = "Suc (nextp s4)" and src = "nextp s4"])
     (use assms in \<open>simp_all add: inv_rules\<close>)

lemma frame_runAuthorization [frame_rules]:
  "frame s t \<Longrightarrow> frame s (snd (runAuthorization df t))"
  by (simp add: runAuthorization_def split_def Let_def frame_rules split: sum.split)

lemma inv_runAuthorization [inv_rules]:
  assumes inv: "service_inv s"
  shows "service_inv (snd (runAuthorization df s))"
proof (cases "type (config s) = OTHER
         \<and> (\<not> truthy (authorizationFallbackResponse (config s)) \<or> isProxyOrigin s)")
  case True
  with inv show ?thesis
    by (simp add: runAuthorization_def split_def Let_def inv_rules)
next
  case False
  define s1 where "s1 = toggleTopClass ''amp-access-loading'' True s"
  define X where "X =
     (if truthy (authorization (config s1)) then
        let (urlPromise, s2) = buildUrl (authorization (config s1)) False s1;
            (f, s3) = promise_then urlPromise (Some H_fetchAuthorization) None s2;
            (r, s4) = promise_then f None (Some (H_authorizationFailed df)) s3
        in (Inr r, s4)
      else if type (config s1) \<noteq> OTHER then (Inl (DevError ''Assertion failed''), s1)
      else if isProxyOrigin s1 then (Inl (DevError ''Assertion failed''), s1)
      else if \<not> truthy (authorizationFallbackResponse (config s1))
      then (Inl (DevError ''Assertion failed''), s1)
      else
        let (r, s2) = promise_resolve (authorizationFallbackResponse (config s1)) s1
        in (Inr r, s2))"
  have invX: "service_inv (snd X)"
    using inv by (simp add: X_def s1_def split_def Let_def inv_rules)
  have eq: "runAuthorization df s =
     (case fst X of
        Inl e \<Rightarrow> (Inl e, snd X)
      | Inr rp \<Rightarrow>
          let (t, s5) = promise_then rp (Some H_authorizationResponse) None (snd X);
              (promise, s6) = promise_then t None (Some H_authorizationError) s5;
              (l, s7) = promise_all [firstAuthorizationPromise s6, promise] s6
          in (Inr promise, s7\<lparr> lastAuthorizationPromise := l \<rparr>))"
    unfolding runAuthorization_def X_def s1_def
    by (subst if_not_P [OF False]) (simp add: split_def Let_def)
  show ?thesis
  proof (cases "fst X")
    case (Inl e)
    with invX show ?thesis by (simp add: eq)
  next
    case (Inr rp)
    with inv_runAuthorization_tail [OF invX, of rp] show ?thesis
      by (simp add: eq split_def Let_def)
  qed
qed

lemma first_runAuthorization [simp]:
  "firstAuthorizationPromise (snd (runAuthorization df s)) = firstAuthorizationPromise s"
  using frame_first [OF frame_runAuthorization [OF frame_refl]] by blast

lemma frame_cb_applyAuthorization [frame_rules]:
  "frame s t \<Longrightarrow> frame s (cb_applyAuthorization r p t)"
  by (simp add: cb_applyAuthorization_def split_def Let_def frame_rules)

lemma inv_cb_applyAuthorization [inv_rules]:
  "service_inv s \<Longrightarrow> p \<noteq> firstAuthorizationPromise s
   \<Longrightarrow> service_inv (cb_applyAuthorization r p s)"
  by (simp add: cb_applyAuthorization_def split_def Let_def inv_rules)

lemma frame_getAuthdataField [frame_rules]:
  "frame s t \<Longrightarrow> frame s (snd (getAuthdataField f t))"
  by (simp add: getAuthdataField_def split_def Let_def frame_rules)

lemma inv_getAuthdataField [inv_rules]:
  "service_inv s \<Longrightarrow> service_inv (snd (getAuthdataField f s))"
  by (simp add: getAuthdataField_def split_def Let_def inv_rules)

lemma frame_whenViewed [frame_rules]:
  "frame s t \<Longrightarrow> frame s (snd (whenViewed ttv t))"
  by (simp add: whenViewed_def split_def Let_def frame_rules)

lemma inv_whenViewed [inv_rules]:
  assumes "service_inv s"
  shows "service_inv (snd (whenViewed ttv s))"
  using assms inv_first_lt [OF assms]
  by (simp add: whenViewed_def split_def Let_def inv_rules)

lemma first_whenViewed [simp]:
  "firstAuthorizationPromise (snd (whenViewed ttv s)) = firstAuthorizationPromise s"
  using frame_first [OF frame_whenViewed [OF frame_refl]] by blast

lemma frame_cb_cancelIfHidden [frame_rules]:
  "frame s t \<Longrightarrow> frame s (cb_cancelIfHidden p t)"
  by (simp add: cb_cancelIfHidden_def frame_rules)

lemma inv_cb_cancelIfHidden [inv_rules]:
  "service_inv s \<Longrightarrow> p \<noteq> firstAuthorizationPromise s \<Longrightarrow> service_inv (cb_cancelIfHidden p s)"
  by (simp add: cb_cancelIfHidden_def inv_rules)

lemma frame_reportWhenViewed [frame_rules]:
  "frame s t \<Longrightarrow> frame s (snd (reportWhenViewed ttv t))"
  by (simp add: reportWhenViewed_def split_def Let_def frame_rules split: option.split)

lemma inv_reportWhenViewed [inv_rules]:
  assumes "service_inv s"
  shows "service_inv (snd (reportWhenViewed ttv s))"
  using assms
  by (simp add: reportWhenViewed_def split_def Let_def inv_rules split: option.split)

lemma first_reportWhenViewed [simp]:
  "firstAuthorizationPromise (snd (reportWhenViewed ttv s)) = firstAuthorizationPromise s"
  using frame_first [OF frame_reportWhenViewed [OF frame_refl]] by blast

lemma frame_cb_reportIfVisible [frame_rules]:
  "frame s t \<Longrightarrow> frame s (cb_reportIfVisible ttv t)"
  by (simp add: cb_reportIfVisible_def frame_rules)

lemma inv_cb_reportIfVisible [inv_rules]:
  "service_inv s \<Longrightarrow> service_inv (cb_reportIfVisible ttv s)"
  by (simp add: cb_reportIfVisible_def inv_rules)

lemma frame_cb_scheduleViewReady [frame_rules]:
  "frame s t \<Longrightarrow> frame s (cb_scheduleViewReady ttv t)"
  by (simp add: cb_scheduleViewReady_def Let_def frame_rules)

lemma inv_cb_scheduleViewReady [inv_rules]:
  "service_inv s \<Longrightarrow> service_inv (cb_scheduleViewReady ttv s)"
  by (simp add: cb_scheduleViewReady_def Let_def inv_rules)

lemma frame_scheduleView [frame_rules]:
  "frame s t \<Longrightarrow> frame s (scheduleView ttv t)"
  by (simp add: scheduleView_def onDocumentReady_def frame_rules)

lemma inv_scheduleView [inv_rules]:
  "service_inv s \<Longrightarrow> service_inv (scheduleView ttv s)"
  by (simp add: scheduleView_def onDocumentReady_def inv_rules)

lemma frame_reportViewToServer [frame_rules]:
  "frame s t \<Longrightarrow> frame s (snd (reportViewToServer t))"
  by (simp add: reportViewToServer_def split_def Let_def frame_rules)

lemma inv_reportViewToServer [inv_rules]:
  "service_inv s \<Longrightarrow> service_inv (snd (reportViewToServer s))"
  by (simp add: reportViewToServer_def split_def Let_def inv_rules)

lemma frame_login [frame_rules]:
  "frame s t \<Longrightarrow> frame s (snd (login ty t))"
  by (simp add: login_def split_def Let_def frame_rules split: option.split)

lemma inv_login [inv_rules]:
  "service_inv s \<Longrightarrow> service_inv (snd (login ty s))"
  by (simp add: login_def split_def Let_def inv_rules split: option.split)

lemma frame_handleAction [frame_rules]:
  "frame s t \<Longrightarrow> frame s (handleAction m t)"
  by (simp add: handleAction_def frame_rules)

lemma inv_handleAction [inv_rules]:
  "service_inv s \<Longrightarrow> service_inv (handleAction m s)"
  by (simp add: handleAction_def inv_rules)

lemma frame_listenToBroadcasts [frame_rules]:
  "frame s t \<Longrightarrow> frame s (listenToBroadcasts t)"
  by (simp add: listenToBroadcasts_def frame_rules)

lemma inv_listenToBroadcasts [inv_rules]:
  "service_inv s \<Longrightarrow> service_inv (listenToBroadcasts s)"
  by (simp add: listenToBroadcasts_def inv_rules)

lemma frame_cb_broadcast [frame_rules]:
  "frame s t \<Longrightarrow> frame s (cb_broadcast mt mo t)"
  by (simp add: cb_broadcast_def frame_rules)

lemma inv_cb_broadcast [inv_rules]:
  "service_inv s \<Longrightarrow> service_inv (cb_broadcast mt mo s)"
  by (simp add: cb_broadcast_def inv_rules)

lemma frame_timeoutPromise [frame_rules]:
  "frame s t \<Longrightarrow> frame s (snd (timeoutPromise delay rp t))"
  by (simp add: timeoutPromise_def split_def Let_def frame_rules)

lemma inv_timeoutPromise [inv_rules]:
  assumes "service_inv s"
  shows "service_inv (snd (timeoutPromise delay rp s))"
  using assms inv_first_lt [OF assms]
  by (simp add: timeoutPromise_def split_def Let_def inv_rules)

lemma frame_cb_timeout [frame_rules]:
  "frame s t \<Longrightarrow> frame s (cb_timeout p t)"
  by (simp add: cb_timeout_def frame_rules)

lemma inv_cb_timeout [inv_rules]:
  "service_inv s \<Longrightarrow> p \<noteq> firstAuthorizationPromise s \<Longrightarrow> service_inv (cb_timeout p s)"
  by (simp add: cb_timeout_def inv_rules)

subsection \<open>Handlers and callbacks keep the invariant\<close>

lemma frame_unlisten: "frame s (foldl (\<lambda>s' u. removeHook u s') t us) = frame s t"
  by (induction us arbitrary: t) simp_all

lemma inv_unlisten:
  "service_inv s \<Longrightarrow> service_inv (foldl (\<lambda>s' u. removeHook u s') s us)"
  by (induction us arbitrary: s) (simp_all add: inv_rules)

lemma frame_call:
  "frame s t \<Longrightarrow> frame s (snd (call h v t))"
  by (cases h)
     (simp_all add: split_def Let_def frame_rules frame_unlisten onDocumentReady_def
        split: prod.split sum.split)

lemma inv_authorizationResponse:
  assumes inv: "service_inv s"
  shows "service_inv (snd (call H_authorizationResponse r s))"
proof -
  define s4 where "s4 = snd (buildLoginUrls
      (toggleTopClass ''amp-access-error'' False
        (toggleTopClass ''amp-access-loading'' False (setAuthResponse r s))))"
  have i4: "service_inv s4" using inv by (simp add: s4_def inv_rules)
  have lt: "firstAuthorizationPromise s4 < nextp s4" using i4 by (rule inv_first_lt)
  have "service_inv (onDocumentReady (CB_applyAuthorization r (nextp s4))
           (cb_applyAuthorization r (nextp s4)) (snd (newPromise O_Executor Pending s4)))"
    using i4 lt by (simp add: onDocumentReady_def inv_rules)
  then show ?thesis
    by (simp add: split_def Let_def s4_def)
qed

lemma inv_call:
  assumes "service_inv s" "h \<noteq> H_reject (firstAuthorizationPromise s)"
  shows "service_inv (snd (call h v s))"
proof (cases "h = H_authorizationResponse")
  case True
  with assms(1) show ?thesis by (simp only: inv_authorizationResponse)
next
  case False
  with assms show ?thesis
    by (cases h)
       (simp_all add: split_def Let_def inv_rules inv_unlisten
          split: prod.split sum.split)
qed

lemma frame_invoke: "frame s t \<Longrightarrow> frame s (invoke cb v t)"
  by (cases cb) (simp_all add: frame_rules)

lemma inv_invoke:
  "service_inv s \<Longrightarrow> cb_ok (firstAuthorizationPromise s) cb \<Longrightarrow> service_inv (invoke cb v s)"
  by (cases cb) (simp_all add: inv_rules)

subsection \<open>Microtasks keep the invariant\<close>

lemma inv_adopt:
  assumes inv: "service_inv s"
    and og: "org s d = O_Then src onF onR"
    and pend: "pst s d = Pending"
    and noerr: "\<not> (onF = None \<and> onR = Some H_authorizationError)"
    and src: "onR = None \<Longrightarrow> \<exists>v. pst s src = Fulfilled v"
  shows "service_inv (s\<lparr> adopted := (adopted s)(d := Some q) \<rparr>)"
proof -
  let ?s' = "s\<lparr> adopted := (adopted s)(d := Some q) \<rparr>"
  have cells: "cell_ok ?s' x" for x
  proof (cases "x = d")
    case True
    have "cell_ok s d" using inv by (simp add: service_inv_def)
    with og pend noerr src True show ?thesis by (auto simp: cell_ok_def)
  next
    case False
    have "cell_ok s x" using inv by (simp add: service_inv_def)
    then show ?thesis by (rule cell_ok_mono) (use False in auto)
  qed
  show ?thesis
    unfolding service_inv_def using cells inv by (auto simp: service_inv_def)
qed

lemma inv_elems:
  assumes inv: "service_inv s"
    and og: "org s a = O_All inputs"
    and i: "i < length inputs"
    and v: "pst s (inputs ! i) = Fulfilled v"
  shows "service_inv (s\<lparr> elems := (elems s)(a := (elems s a)[i := Some v]) \<rparr>)"
proof -
  let ?s' = "s\<lparr> elems := (elems s)(a := (elems s a)[i := Some v]) \<rparr>"
  have cells: "cell_ok ?s' x" for x
  proof (cases "x = a")
    case True
    have "cell_ok s a" using inv by (simp add: service_inv_def)
    with og i v True show ?thesis
      by (auto simp: cell_ok_def nth_list_update)
  next
    case False
    have "cell_ok s x" using inv by (simp add: service_inv_def)
    then show ?thesis by (rule cell_ok_mono) (use False in auto)
  qed
  show ?thesis
    unfolding service_inv_def using cells inv by (auto simp: service_inv_def)
qed

lemma frame_derived:
  assumes "frame s s'" "d < nextp s" "org s d \<noteq> O_Executor"
  shows "org s' d = org s d" "adopted s' d = adopted s d" "elems s' d = elems s d"
        "pst s' d = pst s d"
  using assms by (auto simp: frame_def)

lemma frame_settled:
  assumes "frame s s'" "pst s p \<noteq> Pending" "service_inv s"
  shows "pst s' p = pst s p"
proof -
  have "p < nextp s" using assms(3,2) by (rule inv_settled_allocated)
  with assms(1,2) show ?thesis by (auto simp: frame_def)
qed

lemma inv_finish:
  assumes inv: "service_inv s"
    and og: "org s d = O_Then src onF onR"
    and ad: "adopted s d = None"
    and sel: "(pst s src = Fulfilled v \<and> onF = Some h) \<or> (pst s src = Rejected v \<and> onR = Some h)"
  shows "service_inv (finish d (call h v s))"
proof -
  let ?s' = "snd (call h v s)"
  have cd: "cell_ok s d" using inv by (simp add: service_inv_def)
  have hok: "h \<noteq> H_reject (firstAuthorizationPromise s)"
    using cd og sel by (auto simp: cell_ok_def)
  have inv': "service_inv ?s'" using inv hok by (rule inv_call)
  have fr: "frame s ?s'" by (rule frame_call) simp
  have dlt: "d < nextp s" using inv og by (auto intro: inv_allocated)
  have d': "org ?s' d = O_Then src onF onR" "adopted ?s' d = None" "pst ?s' d = pst s d"
    using frame_derived [OF fr dlt] og ad by simp_all
  have src': "pst ?s' src = pst s src"
    using sel by (auto intro!: frame_settled [OF fr _ inv])
  have cd': "cell_ok ?s' d" using inv' by (simp add: service_inv_def)
  show ?thesis
  proof (cases "fst (call h v s)")
    case (Return v')
    have nowait: "\<not> (onF = Some H_waitLastAuthorization \<and> onR = None)"
      using sel Return by auto
    have "service_inv (settle d (Fulfilled v') ?s')"
      using inv'
    proof (rule inv_settle)
      show "cell_ok (settle d (Fulfilled v') ?s') d"
        using cd' d' src' sel nowait by (auto simp: cell_ok_def settle_def)
    qed
    with Return show ?thesis by (simp add: finish_def)
  next
    case (Throw e)
    have noerr: "\<not> (onF = None \<and> onR = Some H_authorizationError)"
      using sel Throw by auto
    have "service_inv (settle d (Rejected e) ?s')"
      using inv'
    proof (rule inv_settle)
      show "cell_ok (settle d (Rejected e) ?s') d"
        using cd' d' src' sel noerr by (auto simp: cell_ok_def settle_def)
    qed
    with Throw show ?thesis by (simp add: finish_def)
  next
    case (ReturnP q)
    have noerr: "\<not> (onF = None \<and> onR = Some H_authorizationError)"
      using sel ReturnP by auto
    have "service_inv (?s'\<lparr> adopted := (adopted ?s')(d := Some q) \<rparr>)" if "pst ?s' d = Pending"
      using inv' d'(1) that noerr
    proof (rule inv_adopt)
      show "\<exists>v. pst ?s' src = Fulfilled v" if "onR = None"
        using that sel src' by auto
    qed
    with ReturnP inv' show ?thesis by (simp add: finish_def)
  qed
qed

lemma inv_run_job:
  assumes inv: "service_inv s"
  shows "service_inv (run_job j s)"
proof (cases j)
  case (Notify d i)
  have cd: "cell_ok s d" using inv by (simp add: service_inv_def)
  show ?thesis
  proof (cases "org s d")
    case (O_Then src onF onR)
    show ?thesis
    proof (cases "adopted s d")
      case (Some q)
      have "service_inv (settle d (pst s q) s)"
        using inv
      proof (rule inv_settle)
        show "cell_ok (settle d (pst s q) s) d"
          using cd O_Then Some by (auto simp: cell_ok_def settle_def)
      qed
      with Notify O_Then Some inv show ?thesis
        by (cases "pst s q") (simp_all add: run_job_def)
    next
      case None
      show ?thesis
      proof (cases "pst s src")
        case Pending
        with Notify O_Then None inv show ?thesis by (simp add: run_job_def)
      next
        case (Fulfilled v)
        show ?thesis
        proof (cases onF)
          case onF: None
          have "service_inv (settle d (Fulfilled v) s)"
            using inv
          proof (rule inv_settle)
            show "cell_ok (settle d (Fulfilled v) s) d"
              using cd O_Then None Fulfilled onF by (auto simp: cell_ok_def settle_def)
          qed
          with Notify O_Then None Fulfilled onF show ?thesis by (simp add: run_job_def)
        next
          case (Some h)
          have "service_inv (finish d (call h v s))"
            using inv O_Then None by (rule inv_finish) (simp add: Fulfilled Some)
          with Notify O_Then None Fulfilled Some show ?thesis by (simp add: run_job_def)
        qed
      next
        case (Rejected e)
        show ?thesis
        proof (cases onR)
          case onR: None
          have "service_inv (settle d (Rejected e) s)"
            using inv
          proof (rule inv_settle)
            show "cell_ok (settle d (Rejected e) s) d"
              using cd O_Then None Rejected onR by (auto simp: cell_ok_def settle_def)
          qed
          with Notify O_Then None Rejected onR show ?thesis by (simp add: run_job_def)
        next
          case (Some h)
          have "service_inv (finish d (call h e s))"
            using inv O_Then None by (rule inv_finish) (simp add: Rejected Some)
          with Notify O_Then None Rejected Some show ?thesis by (simp add: run_job_def)
        qed
      qed
    qed
  next
    case (O_All inputs)
    show ?thesis
    proof (cases "i < length inputs")
      case False
      with Notify O_All inv show ?thesis by (simp add: run_job_def)
    next
      case True
      show ?thesis
      proof (cases "pst s (inputs ! i)")
        case Pending
        with Notify O_All True inv show ?thesis by (simp add: run_job_def)
      next
        case (Rejected e)
        have "service_inv (settle d (Rejected e) s)"
          using inv
        proof (rule inv_settle)
          show "cell_ok (settle d (Rejected e) s) d"
            using cd O_All True Rejected by (auto simp: cell_ok_def settle_def)
        qed
        with Notify O_All True Rejected show ?thesis by (simp add: run_job_def)
      next
        case (Fulfilled v)
        let ?es = "(elems s d)[i := Some v]"
        let ?s1 = "s\<lparr> elems := (elems s)(d := ?es) \<rparr>"
        have i1: "service_inv ?s1" using inv O_All True Fulfilled by (rule inv_elems)
        have c1: "cell_ok ?s1 d" using i1 by (simp add: service_inv_def)
        have "service_inv (settle d (Fulfilled (Arr (map the ?es))) ?s1)"
          if all: "list_all (\<lambda>x. x \<noteq> None) ?es"
          using i1
        proof (rule inv_settle)
          have "\<forall>k<length inputs. ?es ! k \<noteq> None"
            using all c1 O_All by (auto simp: list_all_length cell_ok_def)
          then show "cell_ok (settle d (Fulfilled (Arr (map the ?es))) ?s1) d"
            using c1 O_All by (auto simp: cell_ok_def settle_def)
        qed
        with Notify O_All True Fulfilled i1 show ?thesis
          by (simp add: run_job_def Let_def)
      qed
    qed
  qed (use Notify inv in \<open>simp_all add: run_job_def\<close>)
qed

subsection \<open>Tasks keep the invariant\<close>

lemma first_invoke [simp]:
  "firstAuthorizationPromise (invoke cb v s) = firstAuthorizationPromise s"
  using frame_first [OF frame_invoke [OF frame_refl]] by blast

lemma inv_invoke_list:
  "service_inv s \<Longrightarrow> \<forall>h\<in>set hs. cb_ok (firstAuthorizationPromise s) (snd (snd h))
   \<Longrightarrow> service_inv (foldl (\<lambda>s' h. invoke (snd (snd h)) v s') s hs)"
  by (induction hs arbitrary: s) (simp_all add: inv_invoke)

lemma inv_hooks_ok:
  "service_inv s \<Longrightarrow> h \<in> set (hooks s) \<Longrightarrow> cb_ok (firstAuthorizationPromise s) (snd (snd h))"
  by (simp add: service_inv_def)

lemma inv_hooks_subset:
  assumes "service_inv s" "set hs \<subseteq> set (hooks s)"
  shows "service_inv (s\<lparr> hooks := hs \<rparr>)"
proof -
  have "cell_ok (s\<lparr> hooks := hs \<rparr>) x" for x
    using assms(1) by (auto simp: service_inv_def intro: cell_ok_mono)
  then show ?thesis
    using assms unfolding service_inv_def by auto
qed

lemma inv_fire: "service_inv s \<Longrightarrow> service_inv (fire ch v s)"
  unfolding fire_def
  by (rule inv_invoke_list) (auto dest: inv_hooks_ok)

lemma inv_fire_once: "service_inv s \<Longrightarrow> service_inv (fire_once ch v s)"
  unfolding fire_once_def
  by (rule inv_invoke_list) (auto dest: inv_hooks_ok intro: inv_hooks_subset)

lemma inv_fire_timer:
  assumes "service_inv s"
  shows "service_inv (fire_timer i s)"
proof (cases "find (\<lambda>h. fst h = i) (hooks s)")
  case None
  with assms show ?thesis by (simp add: fire_timer_def)
next
  case (Some h)
  then have "h \<in> set (hooks s)" by (auto simp: find_Some_iff)
  with assms have "cb_ok (firstAuthorizationPromise s) (snd (snd h))" by (rule inv_hooks_ok)
  with assms Some show ?thesis
    by (cases h) (auto simp: fire_timer_def inv_rules intro!: inv_invoke split: channel.split)
qed

lemma inv_funpow:
  assumes "\<And>s. service_inv s \<Longrightarrow> service_inv (f s)" "service_inv s"
  shows "service_inv ((f ^^ n) s)"
  using assms by (induction n) simp_all

lemma inv_task:
  assumes "service_inv s"
  shows "service_inv (task e s)"
proof (cases e)
  case (E_Broadcast mt mo)
  with assms show ?thesis by (simp add: task_def inv_funpow inv_rules)
next
  case (E_Settle p st)
  have "service_inv (settle p st s)" if "org s p = O_External req" for req
    using assms by (rule inv_settle) (simp add: cell_ok_def that)
  with assms E_Settle show ?thesis
    by (simp add: task_def split: origin.split)
qed (use assms in \<open>simp_all add: task_def inv_fire inv_fire_once inv_fire_timer inv_rules\<close>)

lemma inv_step: "service_inv s \<Longrightarrow> service_inv (step s e)"
  by (simp add: step_def inv_task inv_run_job split: list.split)

lemma inv_initService: "service_inv (initService cfg win)"
proof -
  define s0 :: AccessService where "s0 =
     \<lparr> enabled = True, config = cfg, pubOrigin = win_sourceOrigin win,
       isProxyOrigin = win_isProxyOrigin win, readerIdPromise = None,
       authResponse = Null, firstAuthorizationPromise = 0,
       lastAuthorizationPromise = 0, reportViewPromise = None, loginUrlMap = emptyObject,
       loginPromise = None, loginStartTime = 0,
       pst = (\<lambda>p. Pending), org = (\<lambda>p. O_None), adopted = (\<lambda>p. None),
       elems = (\<lambda>p. []), nextp = 0, subs = [], queue = [],
       now = win_now win, visible = win_visible win, docReady = win_docReady win,
       hooks = [], nextHook = 0, analytics = [], broadcasts = [],
       broadcastListeners = 0, topClass = (\<lambda>c. False),
       parseQueryString = win_parseQueryString win,
       getValueForExpr = win_getValueForExpr win, host = win_host win \<rparr>"
  define s2 where "s2 = (snd (newPromise O_Executor Pending s0))
      \<lparr> firstAuthorizationPromise := nextp s0, lastAuthorizationPromise := nextp s0 \<rparr>"
  have "service_inv s2"
    by (simp add: service_inv_def cell_ok_def s2_def s0_def newPromise_def)
  then have "service_inv (snd (promise_then (nextp s0) (Some H_authorizationReceived) None s2))"
    by (simp add: inv_rules)
  then show ?thesis
    by (simp add: initService_def Let_def split_def s2_def s0_def)
qed

lemma inv_start: "service_inv s \<Longrightarrow> service_inv (start s)"
  by (simp add: start_def startInternal_def split_def Let_def inv_rules VIEW_TIMEOUT_def
        split: prod.split sum.split)

lemma inv_foldl_step: "service_inv s \<Longrightarrow> service_inv (foldl step s evs)"
  by (induction evs arbitrary: s) (simp_all add: inv_step)

lemma inv_run: "service_inv (run cfg win evs)"
  by (simp add: run_def inv_foldl_step inv_start inv_initService)

subsection \<open>A settled promise stays as it is\<close>

lemma evolves_refl [simp]: "evolves s s"
  by (simp add: evolves_def)

lemma evolves_trans: "evolves s t \<Longrightarrow> evolves t u \<Longrightarrow> evolves s u"
  unfolding evolves_def by (auto; force)

lemma frame_evolves: "frame s s' \<Longrightarrow> evolves s s'"
  unfolding frame_def evolves_def by auto

lemma evolves_hv: "hv t' = hv t \<Longrightarrow> evolves s t' = evolves s t"
  by (simp add: hv_def evolves_def)

lemma evolves_settle: "evolves s (settle p st s)"
  by (simp add: evolves_def settle_def)

lemma evolves_subscribe: "evolves s (subscribe src j s)"
  by (simp add: evolves_def subscribe_def)

lemma evolves_call: "evolves s (snd (call h v s))"
  by (rule frame_evolves) (rule frame_call [OF frame_refl])

lemma evolves_finish: "evolves s (finish d (call h v s))"
proof -
  let ?t = "snd (call h v s)"
  have a: "evolves s ?t" by (rule evolves_call)
  have b: "evolves ?t (finish d (call h v s))"
    by (cases "fst (call h v s)")
       (simp_all add: finish_def evolves_settle, simp add: evolves_def subscribe_def)
  from a b show ?thesis by (rule evolves_trans)
qed

lemma evolves_run_job: "evolves s (run_job j s)"
proof (cases j)
  case (Notify d i)
  show ?thesis
  proof (cases "org s d")
    case (O_Then src onF onR)
    then show ?thesis
      by (simp add: run_job_def Notify evolves_settle evolves_finish
            split: option.split pstate.split)
  next
    case (O_All inputs)
    have "evolves s (settle d st (s\<lparr> elems := e \<rparr>))" for st e
      by (simp add: evolves_def settle_def)
    moreover have "evolves s (s\<lparr> elems := e \<rparr>)" for e
      by (simp add: evolves_def)
    ultimately show ?thesis
      by (simp add: run_job_def Notify O_All Let_def evolves_settle split: pstate.split)
  qed (simp_all add: run_job_def Notify)
qed

lemma evolves_invoke_list:
  "evolves s t \<Longrightarrow> evolves s (foldl (\<lambda>s' h. invoke (snd (snd h)) v s') t hs)"
proof (induction hs arbitrary: t)
  case Nil
  then show ?case by simp
next
  case (Cons h hs)
  have "evolves t (invoke (snd (snd h)) v t)"
    by (rule frame_evolves) (rule frame_invoke [OF frame_refl])
  with Cons.prems have "evolves s (invoke (snd (snd h)) v t)" by (rule evolves_trans)
  then show ?case by (simp add: Cons.IH)
qed

lemma evolves_funpow:
  assumes "\<And>t. evolves t (f t)"
  shows "evolves s ((f ^^ n) s)"
proof (induction n)
  case 0
  show ?case by simp
next
  case (Suc n)
  from Suc assms [of "(f ^^ n) s"] show ?case by (simp add: evolves_trans)
qed

lemma evolves_fire_timer: "evolves s (fire_timer i s)"
proof -
  have "evolves s (invoke cb Undefined (removeHook i s))" for cb
    by (rule frame_evolves) (simp add: frame_invoke)
  then show ?thesis
    by (simp add: fire_timer_def split: option.split prod.split channel.split)
qed

lemma evolves_task: "evolves s (task e s)"
proof (cases e)
  case (E_Settle p st)
  then show ?thesis by (simp add: task_def evolves_settle split: origin.split)
next
  case (E_Advance dt)
  then show ?thesis by (simp add: task_def evolves_def)
next
  case (E_Timer i)
  then show ?thesis by (simp add: task_def evolves_fire_timer)
next
  case E_DocumentReady
  have "evolves s (s\<lparr> docReady := True, hooks := hs \<rparr>)" for hs by (simp add: evolves_def)
  then show ?thesis
    unfolding task_def fire_once_def E_DocumentReady
    by (simp add: evolves_invoke_list)
next
  case (E_Visibility b)
  have "evolves s (s\<lparr> visible := b \<rparr>)" by (simp add: evolves_def)
  then show ?thesis
    unfolding task_def fire_def E_Visibility by (simp add: evolves_invoke_list)
next
  case E_Scroll
  then show ?thesis unfolding task_def fire_def by (simp add: evolves_invoke_list)
next
  case E_Click
  have "evolves s (s\<lparr> hooks := hs \<rparr>)" for hs by (simp add: evolves_def)
  then show ?thesis
    unfolding task_def fire_once_def E_Click by (simp add: evolves_invoke_list)
next
  case (E_Broadcast mt mo)
  have "evolves t (cb_broadcast mt mo t)" for t
    by (rule frame_evolves) (simp add: frame_rules)
  then show ?thesis by (simp add: task_def E_Broadcast evolves_funpow)
next
  case (E_Login ty)
  then show ?thesis by (simp add: task_def frame_evolves frame_rules)
next
  case (E_Action m)
  then show ?thesis by (simp add: task_def frame_evolves frame_rules)
next
  case (E_GetAuthdataField f)
  then show ?thesis by (simp add: task_def frame_evolves frame_rules)
qed (simp add: task_def)

lemma evolves_step: "evolves s (step s e)"
proof (cases "queue s")
  case Nil
  then show ?thesis by (simp add: step_def evolves_task)
next
  case (Cons j js)
  have "evolves s (s\<lparr> queue := js \<rparr>)" by (simp add: evolves_def)
  then have "evolves s (run_job j (s\<lparr> queue := js \<rparr>))"
    using evolves_run_job by (rule evolves_trans)
  with Cons show ?thesis by (simp add: step_def)
qed

lemma evolves_foldl_step: "evolves s (foldl step s evs)"
proof (induction evs arbitrary: s)
  case Nil
  show ?case by simp
next
  case (Cons e evs)
  from evolves_step Cons.IH show ?case by (simp, rule evolves_trans)
qed

lemma inv_foldl_step': "service_inv s \<Longrightarrow> service_inv (foldl step s evs)"
  by (induction evs arbitrary: s) (simp_all add: inv_step)

lemma run_append: "run cfg win (evs @ evs') = foldl step (run cfg win evs) evs'"
  by (simp add: run_def)

lemma evolves_settled:
  assumes "evolves s s'" "service_inv s" "pst s p \<noteq> Pending"
  shows "pst s' p = pst s p"
proof -
  have "p < nextp s" using assms(2,3) by (rule inv_settled_allocated)
  with assms(1,3) show ?thesis by (simp add: evolves_def)
qed

lemma evolves_org:
  assumes "evolves s s'" "service_inv s" "org s p \<noteq> O_None"
  shows "org s' p = org s p"
proof -
  have "p < nextp s" using assms(2,3) by (rule inv_allocated)
  with assms(1) show ?thesis by (simp add: evolves_def)
qed

lemma reached_select:
  "enabled (reached s) = enabled s"
  "config (reached s) = config s"
  "pubOrigin (reached s) = pubOrigin s"
  "isProxyOrigin (reached s) = isProxyOrigin s"
  "readerIdPromise (reached s) = readerIdPromise s"
  "authResponse (reached s) = authResponse s"
  "firstAuthorizationPromise (reached s) = firstAuthorizationPromise s"
  "lastAuthorizationPromise (reached s) = lastAuthorizationPromise s"
  "reportViewPromise (reached s) = reportViewPromise s"
  "loginUrlMap (reached s) = loginUrlMap s"
  "loginPromise (reached s) = loginPromise s"
  "loginStartTime (reached s) = loginStartTime s"
  "pst (reached s) = pst s"
  "org (reached s) = org s"
  "adopted (reached s) = adopted s"
  "elems (reached s) = elems s"
  "nextp (reached s) = nextp s"
  "subs (reached s) = subs s"
  "queue (reached s) = queue s"
  "now (reached s) = now s"
  "visible (reached s) = visible s"
  "docReady (reached s) = docReady s"
  "hooks (reached s) = hooks s"
  "nextHook (reached s) = nextHook s"
  "analytics (reached s) = analytics s"
  "broadcasts (reached s) = broadcasts s"
  "broadcastListeners (reached s) = broadcastListeners s"
  "topClass (reached s) = topClass s"
  "parseQueryString (reached s) = parseQueryString s"
  "getValueForExpr (reached s) = getValueForExpr s"
  "host (reached s) = host s"
  by (simp_all add: reached_def)

lemma reached_update:
  "(reached s)\<lparr> enabled := x0 \<rparr> = reached (s\<lparr> enabled := x0 \<rparr>)"
  "(reached s)\<lparr> config := x1 \<rparr> = reached (s\<lparr> config := x1 \<rparr>)"
  "(reached s)\<lparr> pubOrigin := x2 \<rparr> = reached (s\<lparr> pubOrigin := x2 \<rparr>)"
  "(reached s)\<lparr> isProxyOrigin := x3 \<rparr> = reached (s\<lparr> isProxyOrigin := x3 \<rparr>)"
  "(reached s)\<lparr> readerIdPromise := x4 \<rparr> = reached (s\<lparr> readerIdPromise := x4 \<rparr>)"
  "(reached s)\<lparr> authResponse := x5 \<rparr> = reached (s\<lparr> authResponse := x5 \<rparr>)"
  "(reached s)\<lparr> firstAuthorizationPromise := x6 \<rparr> = reached (s\<lparr> firstAuthorizationPromise := x6 \<rparr>)"
  "(reached s)\<lparr> lastAuthorizationPromise := x7 \<rparr> = reached (s\<lparr> lastAuthorizationPromise := x7 \<rparr>)"
  "(reached s)\<lparr> reportViewPromise := x8 \<rparr> = reached (s\<lparr> reportViewPromise := x8 \<rparr>)"
  "(reached s)\<lparr> loginUrlMap := x9 \<rparr> = reached (s\<lparr> loginUrlMap := x9 \<rparr>)"
  "(reached s)\<lparr> loginPromise := x10 \<rparr> = reached (s\<lparr> loginPromise := x10 \<rparr>)"
  "(reached s)\<lparr> loginStartTime := x11 \<rparr> = reached (s\<lparr> loginStartTime := x11 \<rparr>)"
  "(reached s)\<lparr> pst := x12 \<rparr> = reached (s\<lparr> pst := x12 \<rparr>)"
  "(reached s)\<lparr> org := x13 \<rparr> = reached (s\<lparr> org := x13 \<rparr>)"
  "(reached s)\<lparr> adopted := x14 \<rparr> = reached (s\<lparr> adopted := x14 \<rparr>)"
  "(reached s)\<lparr> elems := x15 \<rparr> = reached (s\<lparr> elems := x15 \<rparr>)"
  "(reached s)\<lparr> nextp := x16 \<rparr> = reached (s\<lparr> nextp := x16 \<rparr>)"
  "(reached s)\<lparr> subs := x17 \<rparr> = reached (s\<lparr> subs := x17 \<rparr>)"
  "(reached s)\<lparr> queue := x18 \<rparr> = reached (s\<lparr> queue := x18 \<rparr>)"
  "(reached s)\<lparr> now := x19 \<rparr> = reached (s\<lparr> now := x19 \<rparr>)"
  "(reached s)\<lparr> visible := x20 \<rparr> = reached (s\<lparr> visible := x20 \<rparr>)"
  "(reached s)\<lparr> docReady := x21 \<rparr> = reached (s\<lparr> docReady := x21 \<rparr>)"
  "(reached s)\<lparr> hooks := x22 \<rparr> = reached (s\<lparr> hooks := x22 \<rparr>)"
  "(reached s)\<lparr> nextHook := x23 \<rparr> = reached (s\<lparr> nextHook := x23 \<rparr>)"
  "(reached s)\<lparr> analytics := x24 \<rparr> = reached (s\<lparr> analytics := x24 \<rparr>)"
  "(reached s)\<lparr> broadcasts := x25 \<rparr> = reached (s\<lparr> broadcasts := x25 \<rparr>)"
  "(reached s)\<lparr> broadcastListeners := x26 \<rparr> = reached (s\<lparr> broadcastListeners := x26 \<rparr>)"
  "(reached s)\<lparr> topClass := x27 \<rparr> = reached (s\<lparr> topClass := x27 \<rparr>)"
  "(reached s)\<lparr> parseQueryString := x28 \<rparr> = reached (s\<lparr> parseQueryString := x28 \<rparr>)"
  "(reached s)\<lparr> getValueForExpr := x29 \<rparr> = reached (s\<lparr> getValueForExpr := x29 \<rparr>)"
  "(reached s)\<lparr> host := x30 \<rparr> = reached (s\<lparr> host := x30 \<rparr>)"
  by (simp_all add: reached_def)

lemma finish_reached:
  "finish d (r, reached s) =
     (case r of
        Return v \<Rightarrow> settle d (Fulfilled v) (reached s)
      | Throw e \<Rightarrow> settle d (Rejected e) (reached s)
      | ReturnP q \<Rightarrow>
          if pst s d = Pending
          then subscribe q (Notify d 0) (reached (s\<lparr> adopted := (adopted s)(d := Some q) \<rparr>))
          else reached s)"
  by (cases r) (simp_all add: finish_def reached_def)

lemma initService_reached:
  "initService cfg win =
     (let s0 = reached \<lparr> enabled = True, config = cfg, pubOrigin = win_sourceOrigin win,
                 isProxyOrigin = win_isProxyOrigin win, readerIdPromise = None,
                 authResponse = Null, firstAuthorizationPromise = 0,
                 lastAuthorizationPromise = 0, reportViewPromise = None,
                 loginUrlMap = emptyObject,
                 loginPromise = None, loginStartTime = 0,
                 pst = (\<lambda>p. Pending), org = (\<lambda>p. O_None), adopted = (\<lambda>p. None),
                 elems = (\<lambda>p. []), nextp = 0, subs = [], queue = [],
                 now = win_now win, visible = win_visible win, docReady = win_docReady win,
                 hooks = [], nextHook = 0, analytics = [], broadcasts = [],
                 broadcastListeners = 0, topClass = (\<lambda>c. False),
                 parseQueryString = win_parseQueryString win,
                 getValueForExpr = win_getValueForExpr win, host = win_host win \<rparr>;
          (p, s1) = newPromise O_Executor Pending s0;
          s2 = s1\<lparr> firstAuthorizationPromise := p, lastAuthorizationPromise := p \<rparr>;
          (d, s3) = promise_then p (Some H_authorizationReceived) None s2
      in s3)"
  by (simp add: initService_def reached_def)

lemmas reached_defs =
  newPromise_def [where s = "reached s" for s] settle_def [where s = "reached s" for s]
  subscribe_def [where s = "reached s" for s] promise_then_def [where s = "reached s" for s]
  promise_resolve_def [where s = "reached s" for s]
  promise_all_def [where s = "reached s" for s]
  resolvePromise_def [where s = "reached s" for s]
  rejectPromise_def [where s = "reached s" for s] external_def [where s = "reached s" for s]
  addHook_def [where s = "reached s" for s] removeHook_def [where s = "reached s" for s]
  analyticsEvent_def [where s = "reached s" for s]
  toggleTopClass_def [where s = "reached s" for s]
  broadcastReauthorize_def [where s = "reached s" for s]
  getReaderId_def [where s = "reached s" for s] buildUrl_def [where s = "reached s" for s]
  firstAuthorizationResolver_def [where s = "reached s" for s]
  setAuthResponse_def [where s = "reached s" for s]
  buildLoginUrls_def [where s = "reached s" for s]
  runAuthorization_def [where s = "reached s" for s]
  cb_applyAuthorization_def [where s = "reached s" for s]
  onDocumentReady_def [where s = "reached s" for s]
  getAuthdataField_def [where s = "reached s" for s]
  whenViewed_def [where s = "reached s" for s]
  cb_cancelIfHidden_def [where s = "reached s" for s]
  reportWhenViewed_def [where s = "reached s" for s]
  cb_reportIfVisible_def [where s = "reached s" for s]
  cb_scheduleViewReady_def [where s = "reached s" for s]
  scheduleView_def [where s = "reached s" for s]
  reportViewToServer_def [where s = "reached s" for s]
  loginAnalyticsEvent_def [where s = "reached s" for s] login_def [where s = "reached s" for s]
  handleAction_def [where s = "reached s" for s]
  listenToBroadcasts_def [where s = "reached s" for s]
  cb_broadcast_def [where s = "reached s" for s]
  timeoutPromise_def [where s = "reached s" for s] cb_timeout_def [where s = "reached s" for s]
  run_job_def [where s = "reached s" for s] fire_def [where s = "reached s" for s]
  fire_once_def [where s = "reached s" for s] fire_timer_def [where s = "reached s" for s]
  task_def [where s = "reached s" for s] step_def [where s = "reached s" for s]
  startInternal_def [where s = "reached s" for s] start_def [where s = "reached s" for s]
  call.simps [where s = "reached s" for s] invoke.simps [where s = "reached s" for s]
  reached_select reached_update finish_reached initService_reached run_def buildLoginUrls_body_def
  AUTHORIZATION_TIMEOUT_def VIEW_TIMEOUT_def Let_def

lemmas reached_cong = origin.case_cong_weak option.case_cong_weak pstate.case_cong_weak
  list.case_cong_weak sum.case_cong_weak prod.case_cong_weak result.case_cong_weak
  event.case_cong_weak job.case_cong_weak

lemmas example_defs = cfg0_def win0_def query0_def ticks_def forIn_def emptyObject_def
  setMember_def getMember_def

section \<open>The first authorization and the last\<close>

lemma inv_first_not_rejected:
  assumes "service_inv s"
  shows "pst s (firstAuthorizationPromise s) \<noteq> Rejected e"
proof -
  from assms have "cell_ok s (firstAuthorizationPromise s)"
    and "org s (firstAuthorizationPromise s) = O_Executor"
    by (simp_all add: service_inv_def)
  then show ?thesis by (simp add: cell_ok_def)
qed

lemma inv_join:
  assumes inv: "service_inv s"
    and l: "org s l = O_All [firstAuthorizationPromise s, d]"
    and d: "org s d = O_Then src None (Some H_authorizationError)"
  shows "pst s l \<noteq> Rejected e"
    and "pst s l = Fulfilled v \<Longrightarrow> \<exists>w. pst s (firstAuthorizationPromise s) = Fulfilled w"
proof -
  from inv have cl: "cell_ok s l" and cd: "cell_ok s d" by (simp_all add: service_inv_def)
  from cd d have dnr: "pst s d \<noteq> Rejected e" by (simp add: cell_ok_def)
  from cl l have rej: "pst s l = Rejected e
      \<Longrightarrow> pst s (firstAuthorizationPromise s) = Rejected e \<or> pst s d = Rejected e"
    by (auto simp: cell_ok_def)
  with dnr inv_first_not_rejected [OF inv] show "pst s l \<noteq> Rejected e" by blast
  assume "pst s l = Fulfilled v"
  with cl l have len: "length (elems s l) = 2" and some: "elems s l ! 0 \<noteq> None"
    and val: "\<And>w. elems s l ! 0 = Some w \<Longrightarrow> pst s (firstAuthorizationPromise s) = Fulfilled w"
    by (auto simp: cell_ok_def)
  from some obtain w where "elems s l ! 0 = Some w" by blast
  from val [OF this] show "\<exists>w. pst s (firstAuthorizationPromise s) = Fulfilled w" by blast
qed

lemma inv_last:
  assumes inv: "service_inv s" and ev: "evolves s s'" and inv': "service_inv s'"
  shows "firstAuthorizationPromise s' = firstAuthorizationPromise s"
    and "lastAuthorizationPromise s = firstAuthorizationPromise s
         \<or> (\<exists>d src. org s' (lastAuthorizationPromise s) = O_All [firstAuthorizationPromise s, d]
                \<and> org s' d = O_Then src None (Some H_authorizationError))"
    and "pst s' (lastAuthorizationPromise s) \<noteq> Rejected e"
    and "pst s' (lastAuthorizationPromise s) = Fulfilled v
         \<Longrightarrow> \<exists>w. pst s' (firstAuthorizationPromise s) = Fulfilled w"
proof -
  let ?f = "firstAuthorizationPromise s" and ?l = "lastAuthorizationPromise s"
  from ev show f: "firstAuthorizationPromise s' = ?f" by (simp add: evolves_def)
  from inv consider "?l = ?f"
    | d src where "org s ?l = O_All [?f, d]" "org s d = O_Then src None (Some H_authorizationError)"
    by (auto simp: service_inv_def)
  then have "(?l = ?f \<or> (\<exists>d src. org s' ?l = O_All [?f, d]
                \<and> org s' d = O_Then src None (Some H_authorizationError)))
      \<and> pst s' ?l \<noteq> Rejected e
      \<and> (pst s' ?l = Fulfilled v \<longrightarrow> (\<exists>w. pst s' ?f = Fulfilled w))"
  proof cases
    case 1
    with inv_first_not_rejected [OF inv'] f show ?thesis by auto
  next
    case 2
    have ol: "org s' ?l = O_All [firstAuthorizationPromise s', d]"
      using evolves_org [OF ev inv, of ?l] 2(1) f by simp
    have od: "org s' d = O_Then src None (Some H_authorizationError)"
      using evolves_org [OF ev inv, of d] 2(2) by simp
    from inv_join [OF inv' ol od] ol od f show ?thesis by auto
  qed
  then show "?l = ?f \<or> (\<exists>d src. org s' ?l = O_All [?f, d]
                \<and> org s' d = O_Then src None (Some H_authorizationError))"
    and "pst s' ?l \<noteq> Rejected e"
    and "pst s' ?l = Fulfilled v \<Longrightarrow> \<exists>w. pst s' ?f = Fulfilled w"
    by blast+
qed

lemma runAuthorization_join:
  assumes run: "runAuthorization df s = (Inr p, t)"
    and noskip: "\<not> (type (config s) = OTHER
         \<and> (\<not> truthy (authorizationFallbackResponse (config s)) \<or> isProxyOrigin s))"
  shows "firstAuthorizationPromise t = firstAuthorizationPromise s"
    and "org t (lastAuthorizationPromise t) = O_All [firstAuthorizationPromise s, p]"
    and "nextp s \<le> lastAuthorizationPromise t"
proof -
  have fr: "frame s (snd (runAuthorization df s))" by (simp add: frame_rules)
  with run show "firstAuthorizationPromise t = firstAuthorizationPromise s"
    by (simp add: frame_def)
  define s1 where "s1 = toggleTopClass ''amp-access-loading'' True s"
  define X where "X =
     (if truthy (authorization (config s1)) then
        let (urlPromise, s2) = buildUrl (authorization (config s1)) False s1;
            (f, s3) = promise_then urlPromise (Some H_fetchAuthorization) None s2;
            (r, s4) = promise_then f None (Some (H_authorizationFailed df)) s3
        in (Inr r, s4)
      else if type (config s1) \<noteq> OTHER then (Inl (DevError ''Assertion failed''), s1)
      else if isProxyOrigin s1 then (Inl (DevError ''Assertion failed''), s1)
      else if \<not> truthy (authorizationFallbackResponse (config s1))
      then (Inl (DevError ''Assertion failed''), s1)
      else
        let (r, s2) = promise_resolve (authorizationFallbackResponse (config s1)) s1
        in (Inr r, s2))"
  have eq: "runAuthorization df s =
     (case fst X of
        Inl e \<Rightarrow> (Inl e, snd X)
      | Inr rp \<Rightarrow>
          let (t, s5) = promise_then rp (Some H_authorizationResponse) None (snd X);
              (promise, s6) = promise_then t None (Some H_authorizationError) s5;
              (l, s7) = promise_all [firstAuthorizationPromise s6, promise] s6
          in (Inr promise, s7\<lparr> lastAuthorizationPromise := l \<rparr>))"
    unfolding runAuthorization_def X_def s1_def
    by (subst if_not_P [OF noskip]) (simp add: Let_def split_def)
  from run eq obtain rp where rp: "fst X = Inr rp" by (cases "fst X") auto
  have fx: "frame s (snd X)"
    unfolding X_def s1_def
    by (simp add: Let_def split_def frame_rules)
  define s5 where "s5 = snd (promise_then rp (Some H_authorizationResponse) None (snd X))"
  define s6 where "s6 = snd (promise_then (nextp (snd X)) None (Some H_authorizationError) s5)"
  from run have "p = projr (fst (runAuthorization df s))" by simp
  then have p: "p = nextp s5"
    unfolding eq by (simp add: rp Let_def split_def s5_def)
  from run have "t = snd (runAuthorization df s)" by simp
  then have t: "t = (snd (promise_all [firstAuthorizationPromise s6, p] s6))
                  \<lparr> lastAuthorizationPromise := nextp s6 \<rparr>"
    unfolding eq p by (simp add: rp Let_def split_def s5_def s6_def)
  have f6: "firstAuthorizationPromise s6 = firstAuthorizationPromise s"
    using frame_first [OF fx] by (simp add: s6_def s5_def)
  have n6: "nextp s \<le> nextp s6"
    using frame_nextp [OF fx] by (simp add: s6_def s5_def)
  from t f6 show "org t (lastAuthorizationPromise t) = O_All [firstAuthorizationPromise s, p]"
    by (simp add: org_nextp_promise_all)
  from t n6 show "nextp s \<le> lastAuthorizationPromise t" by simp
qed


section \<open>The first authorization resolves once\<close>

lemma firstAuthorizationResolver_settled:
  "pst s (firstAuthorizationPromise s) \<noteq> Pending \<Longrightarrow> firstAuthorizationResolver s = s"
  by (simp add: firstAuthorizationResolver_def resolvePromise_def settle_def)

text \<open>
  C2. Once the first-authorization promise has settled, the resolver
  \<^verbatim>\<open>firstAuthorizationResolver_\<close> changes nothing, and \<^verbatim>\<open>setAuthResponse_\<close> (which calls
  it) only stores the response. In every run the promise \<^verbatim>\<open>whenFirstAuthorized()\<close>
  returns is the same one from the constructor on; it is never rejected; and once it
  is fulfilled it keeps its value through every later event, whatever runs of
  \<^verbatim>\<open>runAuthorization_\<close> they start.
\<close>

theorem firstAuthorization_resolves_once:
  "(pst s0 (firstAuthorizationPromise s0) \<noteq> Pending
      \<longrightarrow> firstAuthorizationResolver s0 = s0
          \<and> setAuthResponse response s0 = s0\<lparr> authResponse := response \<rparr>)
   \<and> (let s = run cfg win evs; s' = foldl step s evs'; f = whenFirstAuthorized s
       in whenFirstAuthorized s' = f
          \<and> f = whenFirstAuthorized (initService cfg win)
          \<and> (\<forall>e. pst s' f \<noteq> Rejected e)
          \<and> (\<forall>v. pst s f = Fulfilled v \<longrightarrow> pst s' f = Fulfilled v))"
proof -
  have a: "pst s0 (firstAuthorizationPromise s0) \<noteq> Pending
      \<longrightarrow> firstAuthorizationResolver s0 = s0
          \<and> setAuthResponse response s0 = s0\<lparr> authResponse := response \<rparr>"
    by (simp add: setAuthResponse_def firstAuthorizationResolver_def resolvePromise_def
          settle_def)
  let ?s = "run cfg win evs"
  let ?s' = "foldl step ?s evs'"
  have inv: "service_inv ?s" by (rule inv_run)
  have inv': "service_inv ?s'" using inv by (rule inv_foldl_step)
  have ev: "evolves ?s ?s'" by (rule evolves_foldl_step)
  have f: "firstAuthorizationPromise ?s' = firstAuthorizationPromise ?s"
    using ev by (simp add: evolves_def)
  have "evolves (initService cfg win) (start (initService cfg win))"
    by (rule frame_evolves) (simp add: start_def startInternal_def split_def Let_def
          frame_rules VIEW_TIMEOUT_def split: sum.split prod.split)
  then have "evolves (initService cfg win) ?s"
    unfolding run_def using evolves_foldl_step by (rule evolves_trans)
  then have f0: "firstAuthorizationPromise ?s = firstAuthorizationPromise (initService cfg win)"
    by (simp add: evolves_def)
  have nr: "\<forall>e. pst ?s' (firstAuthorizationPromise ?s) \<noteq> Rejected e"
    using inv_first_not_rejected [OF inv'] f by simp
  have keep: "\<forall>v. pst ?s (firstAuthorizationPromise ?s) = Fulfilled v
                \<longrightarrow> pst ?s' (firstAuthorizationPromise ?s) = Fulfilled v"
    using evolves_settled [OF ev inv, of "firstAuthorizationPromise ?s"] by auto
  have b: "whenFirstAuthorized ?s' = whenFirstAuthorized ?s
          \<and> whenFirstAuthorized ?s = whenFirstAuthorized (initService cfg win)
          \<and> (\<forall>e. pst ?s' (whenFirstAuthorized ?s) \<noteq> Rejected e)
          \<and> (\<forall>v. pst ?s (whenFirstAuthorized ?s) = Fulfilled v
                \<longrightarrow> pst ?s' (whenFirstAuthorized ?s) = Fulfilled v)"
    using f f0 nr keep by (simp add: whenFirstAuthorized_def)
  from a b show ?thesis
    unfolding Let_def by blast
qed

lemma authorized_run:
  "(let s = run cfg0 win0 authorized
    in lastAuthorizationPromise s = 11 \<and> firstAuthorizationPromise s = 0
       \<and> pst s 11 = Pending \<and> pst s 0 = Fulfilled Undefined
       \<and> authResponse s = Obj [(''access'', Bool True)]
       \<and> analytics s = [''access-authorization-received''])"
  by (simp add: reached_defs example_defs authorized_def
           del: call.simps invoke.simps cong: reached_cong)

lemma applied_run:
  "(let s = run cfg0 win0 (authorized @ applied)
    in pst s 11 = Fulfilled (Arr [Undefined, Undefined]) \<and> pst s 0 = Fulfilled Undefined
       \<and> org s 11 = O_All [0, 10])"
  by (simp add: reached_defs example_defs authorized_def applied_def
           del: call.simps invoke.simps cong: reached_cong)

lemma reauthorized_run:
  "(let s = run cfg0 win0 (authorized @ applied @ reauthorized)
    in lastAuthorizationPromise s = 35 \<and> pst s 0 = Fulfilled Undefined
       \<and> authResponse s = Obj [(''access'', Bool False)]
       \<and> analytics s = [''access-authorization-received''])"
  by (simp add: reached_defs example_defs authorized_def applied_def reauthorized_def
           del: call.simps invoke.simps cong: reached_cong)


theorem firstAuthorization_resolves_once_witness:
  "pst (run cfg0 win0 authorized) (firstAuthorizationPromise (run cfg0 win0 authorized))
     = Fulfilled Undefined
   \<and> firstAuthorizationResolver (run cfg0 win0 authorized) = run cfg0 win0 authorized
   \<and> whenFirstAuthorized (foldl step (run cfg0 win0 authorized) (applied @ reauthorized)) = 0
   \<and> pst (foldl step (run cfg0 win0 authorized) (applied @ reauthorized)) 0 = Fulfilled Undefined
   \<and> authResponse (foldl step (run cfg0 win0 authorized) (applied @ reauthorized))
       = Obj [(''access'', Bool False)]"
  using firstAuthorization_resolves_once
      [of "run cfg0 win0 authorized" "Null" cfg0 win0 authorized "applied @ reauthorized"]
    authorized_run reauthorized_run
  by (simp add: Let_def run_append whenFirstAuthorized_def)

end
